theory Spec2Isabelle
  imports Main "HOL-Library.Sublist" "HOL-Library.Word"
begin

section \<open>The intermediate representation, as the pass sees it\<close>

text \<open>
  The pass of \<^verbatim>\<open>SubroutineInjection\<close> works on handles: a \<^verbatim>\<open>Value*\<close>,
  an \<^verbatim>\<open>Instruction*\<close> and a \<^verbatim>\<open>BasicBlock*\<close> are all addresses, and two
  values are the same value when the addresses are equal. A handle is a natural number here.
  The one exception is the 32-bit integer constant the pass builds with
  \<^verbatim>\<open>ConstantInt::get(Type::getInt32Ty(context), n)\<close>: such constants are uniqued by
  their value, so the constant is the handle.
\<close>

datatype val = Ptr nat | ConstantInt int

text \<open>
  Types, as far as the pass inspects them: \<^verbatim>\<open>isPointerTy\<close>,
  \<^verbatim>\<open>getContainedType(0)\<close> and \<^verbatim>\<open>getNumContainedTypes\<close>.
\<close>

datatype ty = VoidTy | Int32Ty | ScalarTy | PointerTy ty | AggregateTy "ty list"

fun isPointerTy :: "ty \<Rightarrow> bool" where
  "isPointerTy (PointerTy t) = True"
| "isPointerTy t = False"

fun getNumContainedTypes :: "ty \<Rightarrow> nat" where
  "getNumContainedTypes (PointerTy t) = 1"
| "getNumContainedTypes (AggregateTy ts) = length ts"
| "getNumContainedTypes t = 0"

fun getContainedType0 :: "ty \<Rightarrow> ty" where
  "getContainedType0 (PointerTy t) = t"
| "getContainedType0 (AggregateTy (t # ts)) = t"
| "getContainedType0 t = t"

datatype opcode =
  Call | Invoke | PHI | Load | Store | GetElementPtr | Alloca | Add | Br | Switch | Ret | Other

text \<open>
  An instruction: its own handle, the opcode, the operand list in LLVM's layout (the
  targets of a branch and of a switch are operands; the incoming blocks of a \<open>\<phi>\<close> are
  not, they are kept beside the incoming values), the name of the called function of a call
  (\<open>None\<close> when \<^verbatim>\<open>getCalledFunction()\<close> is null), and the type of the result.
\<close>

record instr =
  self :: nat
  opcode :: opcode
  operands :: "val list"
  incomingBlocks :: "nat list"
  calledFunction :: "string option"
  resultTy :: ty

datatype linkage = ExternalLinkage | InternalLinkage | LinkOnceODRLinkage

text \<open>A function: its blocks in layout order, the first one being the entry block.\<close>

record func =
  fhandle :: nat
  flinkage :: linkage
  arguments :: "nat list"
  blocks :: "(nat \<times> instr list) list"

text \<open>
  What the pass reads from its surroundings: the textual name of a value
  (\<^verbatim>\<open>JsonHelper::getOpName\<close>, with the leading sigil), the type of a value, and
  whether LLVM's \<^verbatim>\<open>SplitCriticalEdge\<close> declines to split a critical edge (it hands
  back a null pointer then).
\<close>

record env =
  getOpName :: "val \<Rightarrow> string"
  getType :: "val \<Rightarrow> ty"
  splitFails :: "nat \<Rightarrow> nat \<Rightarrow> bool"

datatype error = NullDereference | AssertionFailed | OutOfRange

text \<open>
  Modelled from the spec: the slot layout of the checkpoint memory, whose macros
  \<^verbatim>\<open>HEARTBEAT\<close>, \<^verbatim>\<open>CKPT_ID\<close>, \<^verbatim>\<open>IS_COMPLETE\<close> and \<^verbatim>\<open>VALUES_START\<close>
  live in a header that is not part of the sources.
\<close>

definition HEARTBEAT :: int where "HEARTBEAT = 0"
definition CKPT_ID :: int where "CKPT_ID = 1"
definition IS_COMPLETE :: int where "IS_COMPLETE = 2"
definition VALUES_START :: int where "VALUES_START = 3"

subsection \<open>Reading the control-flow graph\<close>

fun blockOf :: "val \<Rightarrow> nat list" where
  "blockOf (Ptr b) = [b]"
| "blockOf (ConstantInt n) = []"

fun caseDests :: "val list \<Rightarrow> val list" where
  "caseDests (c # d # r) = d # caseDests r"
| "caseDests r = []"

text \<open>
  The successors of a terminator, in successor-number order. An unconditional branch has
  the operand list \<open>[dest]\<close>, a conditional one \<open>[cond, false, true]\<close> with the true
  target as successor \<open>0\<close>, a switch \<open>[cond, default, c1, d1, c2, d2, \<dots>]\<close> with the
  default target as successor \<open>0\<close>. Anything else has no successor.
\<close>

definition successors :: "instr \<Rightarrow> nat list" where
  "successors i =
     (case opcode i of
        Br \<Rightarrow> (case operands i of
                  [d] \<Rightarrow> blockOf d
                | [c, f, t] \<Rightarrow> blockOf t @ blockOf f
                | _ \<Rightarrow> [])
      | Switch \<Rightarrow> (case operands i of
                  c # d # cs \<Rightarrow> concat (map blockOf (d # caseDests cs))
                | _ \<Rightarrow> [])
      | _ \<Rightarrow> [])"

definition getBlock :: "func \<Rightarrow> nat \<Rightarrow> instr list" where
  "getBlock F b = (case map_of (blocks F) b of None \<Rightarrow> [] | Some is \<Rightarrow> is)"

definition termSuccessors :: "instr list \<Rightarrow> nat list" where
  "termSuccessors is = (if is = [] then [] else successors (last is))"

definition getBBSuccessors :: "func \<Rightarrow> nat \<Rightarrow> nat list" where
  "getBBSuccessors F b = termSuccessors (getBlock F b)"

text \<open>
  The predecessors of a block, one entry per edge (a block that branches twice to \<open>b\<close>
  is listed twice, as \<^verbatim>\<open>pred_begin\<close> walks the uses of \<open>b\<close> by terminators).
\<close>

definition getBBPredecessors :: "func \<Rightarrow> nat \<Rightarrow> nat list" where
  "getBBPredecessors F b =
     concat (map (\<lambda>(p, is). map (\<lambda>s. p) (filter (\<lambda>s. s = b) (termSuccessors is))) (blocks F))"

definition hasNPredecessorsOrMore :: "func \<Rightarrow> nat \<Rightarrow> nat \<Rightarrow> bool" where
  "hasNPredecessorsOrMore F b n = (n \<le> length (getBBPredecessors F b))"

definition updBlock :: "nat \<Rightarrow> (instr list \<Rightarrow> instr list) \<Rightarrow> func \<Rightarrow> func" where
  "updBlock b f F =
     F\<lparr>blocks := map (\<lambda>(k, is). if k = b then (k, f is) else (k, is)) (blocks F)\<rparr>"

section \<open>Inputs binder\<close>

text \<open>
  \<^verbatim>\<open>std::map::emplace\<close> inserts only when the key is absent; the source says so itself
  in \<^verbatim>\<open>updateMapEntry\<close>.
\<close>

definition emplace :: "'k \<Rightarrow> 'v \<Rightarrow> ('k \<rightharpoonup> 'v) \<Rightarrow> ('k \<rightharpoonup> 'v)" where
  "emplace k v m = (case m k of None \<Rightarrow> m(k \<mapsto> v) | Some w \<Rightarrow> m)"

definition allOperands :: "func \<Rightarrow> val list" where
  "allOperands F = concat (map operands (concat (map snd (blocks F))))"

text \<open>The three nested loops of \<^verbatim>\<open>getFuncValuePtrsMap\<close> over one function.\<close>

definition valuePtrsMap :: "env \<Rightarrow> func \<Rightarrow> (string \<rightharpoonup> val)" where
  "valuePtrsMap E F = foldl (\<lambda>m v. emplace (getOpName E v) v m) Map.empty (allOperands F)"

definition getFuncValuePtrsMap ::
  "env \<Rightarrow> func list \<Rightarrow> (string \<rightharpoonup> 'j) \<Rightarrow> (nat \<rightharpoonup> (string \<rightharpoonup> val))" where
  "getFuncValuePtrsMap E M jsonMap =
     foldl (\<lambda>acc F.
              if jsonMap (getOpName E (Ptr (fhandle F))) = None then acc
              else emplace (fhandle F) (valuePtrsMap E F) acc)
           Map.empty M"

section \<open>Candidate selector\<close>

fun contains :: "string \<Rightarrow> string \<Rightarrow> bool" where
  "contains sub [] = (sub = [])"
| "contains sub (c # cs) = (prefix sub (c # cs) \<or> contains sub cs)"

definition getBBsWithOneSuccessor :: "func \<Rightarrow> (nat \<rightharpoonup> val list) \<Rightarrow> (nat \<rightharpoonup> val list)" where
  "getBBsWithOneSuccessor F bbTrackedVals =
     (\<lambda>b. case bbTrackedVals b of
             None \<Rightarrow> None
           | Some tv \<Rightarrow> if length (getBBSuccessors F b) = 1 then Some tv else None)"

definition isNestedPtr :: "env \<Rightarrow> val \<Rightarrow> bool" where
  "isNestedPtr E v =
     (isPointerTy (getType E v) \<and> getNumContainedTypes (getContainedType0 (getType E v)) > 0)"

definition removeNestedPtrTrackedVals :: "env \<Rightarrow> (nat \<rightharpoonup> val list) \<Rightarrow> (nat \<rightharpoonup> val list)" where
  "removeNestedPtrTrackedVals E bbTrackedVals =
     (\<lambda>b. case bbTrackedVals b of
             None \<Rightarrow> None
           | Some tv \<Rightarrow> Some (filter (\<lambda>v. \<not> isNestedPtr E v) tv))"

definition removeBBsWithNoTrackedVals :: "(nat \<rightharpoonup> val list) \<Rightarrow> (nat \<rightharpoonup> val list)" where
  "removeBBsWithNoTrackedVals bbTrackedVals =
     (\<lambda>b. case bbTrackedVals b of
             None \<Rightarrow> None
           | Some tv \<Rightarrow> if length tv > 0 then Some tv else None)"

definition isDirective :: "instr \<Rightarrow> bool" where
  "isDirective i =
     ((opcode i = Call \<or> opcode i = Invoke) \<and>
      (case calledFunction i of None \<Rightarrow> False | Some n \<Rightarrow> contains ''checkpoint'' n))"

text \<open>
  The instruction loop of \<^verbatim>\<open>chooseBBWithCheckpointDirective\<close> on one block \<open>b\<close>:
  the instructions that stay, and the tracked values under which the block was entered
  into the checkpoint map (\<open>None\<close> when it was not). A call with no called function
  stops the pass, since the source asks the null pointer for its name.
\<close>

fun scanBlock :: "(nat \<rightharpoonup> val list) \<Rightarrow> nat \<Rightarrow> instr list \<Rightarrow> error + (instr list \<times> val list option)" where
  "scanBlock m b [] = Inr ([], None)"
| "scanBlock m b (i # is) =
     (if opcode i = Call \<or> opcode i = Invoke then
        (case calledFunction i of
           None \<Rightarrow> Inl NullDereference
         | Some n \<Rightarrow>
             (if contains ''checkpoint'' n \<and> m b \<noteq> None then Inr (is, m b)
              else (case scanBlock m b is of
                      Inl e \<Rightarrow> Inl e
                    | Inr (is', r) \<Rightarrow> Inr (i # is', r))))
      else (case scanBlock m b is of
              Inl e \<Rightarrow> Inl e
            | Inr (is', r) \<Rightarrow> Inr (i # is', r)))"

text \<open>
  The block loop: the checkpoint map is an association list in the order of insertion,
  and \<^verbatim>\<open>emplace\<close> keeps the first entry of a key.
\<close>

fun chooseBlocks ::
  "(nat \<rightharpoonup> val list) \<Rightarrow> (nat \<times> instr list) list \<Rightarrow>
     error + ((nat \<times> val list) list \<times> (nat \<times> instr list) list)" where
  "chooseBlocks m [] = Inr ([], [])"
| "chooseBlocks m ((b, is) # rest) =
     (case scanBlock m b is of
        Inl e \<Rightarrow> Inl e
      | Inr (is', r) \<Rightarrow>
          (case chooseBlocks m rest of
             Inl e \<Rightarrow> Inl e
           | Inr (cp, rest') \<Rightarrow>
               Inr ((case r of
                       None \<Rightarrow> cp
                     | Some tv \<Rightarrow> (b, tv) # filter (\<lambda>(k, w). k \<noteq> b) cp),
                    (b, is') # rest')))"

definition chooseBBWithCheckpointDirective ::
  "(nat \<rightharpoonup> val list) \<Rightarrow> func \<Rightarrow> error + ((nat \<times> val list) list \<times> func)" where
  "chooseBBWithCheckpointDirective bbTrackedVals F =
     (case chooseBlocks bbTrackedVals (blocks F) of
        Inl e \<Rightarrow> Inl e
      | Inr (cp, bs) \<Rightarrow> Inr (cp, F\<lparr>blocks := bs\<rparr>))"

text \<open>Step 0 of \<^verbatim>\<open>injectSubroutines\<close>: the three filters, then the directive search.\<close>

definition candidateFilter :: "env \<Rightarrow> func \<Rightarrow> (nat \<rightharpoonup> val list) \<Rightarrow> (nat \<rightharpoonup> val list)" where
  "candidateFilter E F bbTrackedVals =
     removeBBsWithNoTrackedVals (removeNestedPtrTrackedVals E (getBBsWithOneSuccessor F bbTrackedVals))"

definition selectCheckpointBBs ::
  "env \<Rightarrow> func \<Rightarrow> (nat \<rightharpoonup> val list) \<Rightarrow> error + ((nat \<times> val list) list \<times> func)" where
  "selectCheckpointBBs E F bbTrackedVals =
     chooseBBWithCheckpointDirective (candidateFilter E F bbTrackedVals) F"

section \<open>CFG surgeon\<close>

definition mkInstr :: "nat \<Rightarrow> opcode \<Rightarrow> val list \<Rightarrow> ty \<Rightarrow> instr" where
  "mkInstr h oc ops t =
     \<lparr>self = h, opcode = oc, operands = ops, incomingBlocks = [], calledFunction = None,
      resultTy = t\<rparr>"

definition insertBeforeTerminator :: "instr list \<Rightarrow> instr list \<Rightarrow> instr list" where
  "insertBeforeTerminator new is = butlast is @ new @ (if is = [] then [] else [last is])"

fun insertAfter :: "nat \<Rightarrow> (nat \<times> instr list) \<Rightarrow> (nat \<times> instr list) list \<Rightarrow> (nat \<times> instr list) list" where
  "insertAfter b nb [] = [nb]"
| "insertAfter b nb ((k, is) # r) =
     (if k = b then (k, is) # nb # r else (k, is) # insertAfter b nb r)"

definition replacePhiUsesWith :: "nat \<Rightarrow> nat \<Rightarrow> instr \<Rightarrow> instr" where
  "replacePhiUsesWith old new i =
     (if opcode i = PHI
      then i\<lparr>incomingBlocks := map (\<lambda>b. if b = old then new else b) (incomingBlocks i)\<rparr>
      else i)"

fun setFirst :: "nat \<Rightarrow> nat \<Rightarrow> nat list \<Rightarrow> nat list" where
  "setFirst old new [] = []"
| "setFirst old new (b # bs) = (if b = old then new # bs else b # setFirst old new bs)"

definition setFirstIncomingBlock :: "nat \<Rightarrow> nat \<Rightarrow> instr \<Rightarrow> instr" where
  "setFirstIncomingBlock old new i =
     (if opcode i = PHI then i\<lparr>incomingBlocks := setFirst old new (incomingBlocks i)\<rparr> else i)"

text \<open>
  Modelled from the spec: LLVM's \<^verbatim>\<open>SplitBlock(BB, BB->getTerminator())\<close>, which is
  not part of the sources (`split the source block at its terminator'). The terminator
  moves into a new block laid out after \<open>BB\<close>, \<open>BB\<close> ends in a branch to the new block,
  and the \<open>\<phi>\<close>s of the new block's successors name the new block where they named \<open>BB\<close>.
  The new block takes the handle \<open>n\<close>, the branch the handle \<open>n + 1\<close>.
\<close>

definition SplitBlock :: "func \<Rightarrow> nat \<Rightarrow> nat \<Rightarrow> func \<times> nat \<times> nat" where
  "SplitBlock F n BB =
     (let is = getBlock F BB;
          tail = (if is = [] then [] else [last is]);
          F1 = updBlock BB (\<lambda>is. butlast is @ [mkInstr (n + 1) Br [Ptr n] VoidTy]) F;
          F2 = F1\<lparr>blocks := insertAfter BB (n, tail) (blocks F1)\<rparr>;
          F3 = foldl (\<lambda>G s. updBlock s (map (replacePhiUsesWith BB n)) G) F2 (termSuccessors is)
      in (F3, n, n + 2))"

definition succOperandIndex :: "instr \<Rightarrow> nat \<Rightarrow> nat" where
  "succOperandIndex i k =
     (case opcode i of
        Br \<Rightarrow> (if length (operands i) = 1 then 0 else 2 - k)
      | Switch \<Rightarrow> 2 * k + 1
      | _ \<Rightarrow> 0)"

definition setSuccessor :: "nat \<Rightarrow> nat \<Rightarrow> instr \<Rightarrow> instr" where
  "setSuccessor k new i = i\<lparr>operands := (operands i)[succOperandIndex i k := Ptr new]\<rparr>"

text \<open>
  Modelled from the spec: LLVM's \<^verbatim>\<open>SplitCriticalEdge\<close>, which is not part of the
  sources (`a critical-edge split': `the new block has exactly one predecessor and one
  successor'). A new block holding a branch to the target is laid out after \<open>BB\<close>,
  successor \<open>SuccNum\<close> of \<open>BB\<close> is redirected to it, and each \<open>\<phi>\<close> of the target
  names the new block in its first incoming from \<open>BB\<close>.
\<close>

definition SplitCriticalEdge :: "func \<Rightarrow> nat \<Rightarrow> nat \<Rightarrow> nat \<Rightarrow> nat \<Rightarrow> func \<times> nat \<times> nat" where
  "SplitCriticalEdge F n BB SuccNum Dest =
     (let F1 = updBlock BB (\<lambda>is. butlast is @ map (setSuccessor SuccNum n) (if is = [] then [] else [last is])) F;
          F2 = F1\<lparr>blocks := insertAfter BB (n, [mkInstr (n + 1) Br [Ptr Dest] VoidTy]) (blocks F1)\<rparr>;
          F3 = updBlock Dest (map (setFirstIncomingBlock BB n)) F2
      in (F3, n, n + 2))"

fun GetSuccessorNumber :: "nat list \<Rightarrow> nat \<Rightarrow> nat" where
  "GetSuccessorNumber [] s = 0"
| "GetSuccessorNumber (x # xs) s = (if x = s then 0 else Suc (GetSuccessorNumber xs s))"

definition isCriticalEdge :: "func \<Rightarrow> nat \<Rightarrow> nat \<Rightarrow> bool" where
  "isCriticalEdge F BB Dest =
     (length (getBBSuccessors F BB) \<noteq> 1 \<and> hasNPredecessorsOrMore F Dest 2)"

text \<open>
  \<^verbatim>\<open>SplitEdgeCustom\<close>. \<^verbatim>\<open>GetSuccessorNumber\<close> asserts that the edge exists. A
  critical edge that \<^verbatim>\<open>SplitCriticalEdge\<close> leaves alone falls through to the assertion
  on the number of successors. The result is the redirected successor or the block of
  \<^verbatim>\<open>SplitBlock\<close>, so it is never the null pointer: \<open>Some\<close> of the function after
  the split, the new block and the next free handle.
\<close>

definition SplitEdgeCustom :: "env \<Rightarrow> func \<Rightarrow> nat \<Rightarrow> nat \<Rightarrow> nat \<Rightarrow> error + (func \<times> nat \<times> nat) option" where
  "SplitEdgeCustom E F n BB Succ =
     (if Succ \<notin> set (getBBSuccessors F BB) then Inl AssertionFailed
      else if isCriticalEdge F BB Succ \<and> \<not> splitFails E BB Succ
      then Inr (Some (SplitCriticalEdge F n BB (GetSuccessorNumber (getBBSuccessors F BB) Succ) Succ))
      else if length (getBBSuccessors F BB) \<noteq> 1 then Inl AssertionFailed
      else Inr (Some (SplitBlock F n BB)))"

text \<open>
  \<^verbatim>\<open>splitEdgeWrapper\<close> names the new block before it tests the pointer, so a null
  pointer is dereferenced there and the test that follows never sees one. Block names are
  not part of the model, so the \<^verbatim>\<open>setName\<close> leaves no other trace. The callers are
  written for a wrapper that may hand back a null pointer, and keep those branches.
\<close>

definition splitEdgeWrapper :: "env \<Rightarrow> func \<Rightarrow> nat \<Rightarrow> nat \<Rightarrow> nat \<Rightarrow> error + (func \<times> nat \<times> nat) option" where
  "splitEdgeWrapper E F n edgeStartBB edgeEndBB =
     (case SplitEdgeCustom E F n edgeStartBB edgeEndBB of
        Inl e \<Rightarrow> Inl e
      | Inr None \<Rightarrow> Inl NullDereference
      | Inr (Some insertedBB) \<Rightarrow> Inr (Some insertedBB))"

section \<open>Marshaller\<close>

text \<open>
  One round of the loop over the tracked values of a checkpoint (steps 3.3.2 to 3.3.6 of
  \<^verbatim>\<open>injectSubroutines\<close>), for the tracked value \<open>v\<close> and the slot index \<open>k\<close>. A round
  takes the handles \<open>n, \<dots>, n + 7\<close>: the dereferencing load, the save-side element
  pointer, the store, the restore-side element pointer, the load, the alloca, the store
  into the alloca, and the \<open>\<phi>\<close>. The slot index is a C \<^verbatim>\<open>int\<close> in the source; it is
  an unbounded integer here, which is the same below \<open>2^31\<close> tracked values.
\<close>

definition marshalValue ::
  "env \<Rightarrow> val \<Rightarrow> nat \<Rightarrow> nat \<Rightarrow> nat \<Rightarrow> int \<Rightarrow> val \<Rightarrow> func \<Rightarrow> nat \<Rightarrow> func \<times> nat \<times> (val \<times> val)" where
  "marshalValue E ckptMemSegment saveBB restoreBB junctionBB valMemSegIndex trackedVal F n =
     (let isPointer = isPointerTy (getType E trackedVal);
          containedType = (if isPointer then getContainedType0 (getType E trackedVal)
                           else getType E trackedVal);
          index = ConstantInt valMemSegIndex;
          saveVal = (if isPointer then Ptr n else trackedVal);
          deref = (if isPointer then [mkInstr n Load [trackedVal] Int32Ty] else []);
          elemPtrStore = mkInstr (n + 1) GetElementPtr [ckptMemSegment, index] (PointerTy Int32Ty);
          storeInst = mkInstr (n + 2) Store [saveVal, Ptr (n + 1)] VoidTy;
          elemPtrLoad = mkInstr (n + 3) GetElementPtr [ckptMemSegment, index] (PointerTy Int32Ty);
          loadInst = mkInstr (n + 4) Load [Ptr (n + 3)] containedType;
          restoredVal = (if isPointer then Ptr (n + 5) else Ptr (n + 4));
          allocaInstR = (if isPointer
                         then [mkInstr (n + 5) Alloca [ConstantInt 1] (PointerTy containedType),
                               mkInstr (n + 6) Store [Ptr (n + 4), Ptr (n + 5)] VoidTy]
                         else []);
          phi = (mkInstr (n + 7) PHI [trackedVal, restoredVal] (getType E trackedVal))
                  \<lparr>incomingBlocks := [saveBB, restoreBB]\<rparr>;
          F1 = updBlock saveBB (insertBeforeTerminator (deref @ [elemPtrStore, storeInst])) F;
          F2 = updBlock restoreBB (insertBeforeTerminator ([elemPtrLoad, loadInst] @ allocaInstR)) F1;
          F3 = updBlock junctionBB (insertBeforeTerminator [phi]) F2
      in (F3, n + 8, (trackedVal, Ptr (n + 7))))"

fun marshalValues ::
  "env \<Rightarrow> val \<Rightarrow> nat \<Rightarrow> nat \<Rightarrow> nat \<Rightarrow> int \<Rightarrow> val list \<Rightarrow> func \<Rightarrow> nat \<Rightarrow>
     func \<times> nat \<times> (val \<times> val) list" where
  "marshalValues E c s r j k [] F n = (F, n, [])"
| "marshalValues E c s r j k (v # vs) F n =
     (case marshalValue E c s r j k v F n of
        (F1, n1, p) \<Rightarrow>
          (case marshalValues E c s r j (k + 1) vs F1 n1 of
             (F2, n2, ps) \<Rightarrow> (F2, n2, p # ps)))"

text \<open>Step 3.3.6: the store of \<open>1\<close> into the \<^verbatim>\<open>IS_COMPLETE\<close> slot, in the save block.\<close>

definition storeIsComplete :: "val \<Rightarrow> nat \<Rightarrow> func \<Rightarrow> nat \<Rightarrow> func \<times> nat" where
  "storeIsComplete ckptMemSegment saveBB F n =
     (updBlock saveBB
        (insertBeforeTerminator
           [mkInstr n GetElementPtr [ckptMemSegment, ConstantInt IS_COMPLETE] (PointerTy Int32Ty),
            mkInstr (n + 1) Store [ConstantInt 1, Ptr n] VoidTy]) F,
      n + 2)"

section \<open>SSA repair: the propagator\<close>

record BBUpdateRequest =
  startBB :: nat
  currBB :: nat
  prevBB :: nat
  oldVal :: val
  newVal :: val
  valueVersions :: "val set"

text \<open>
  What the propagator is handed and does not change: the set of new blocks, the live-out
  sets of the analysis for the function (\<open>None\<close> when the liveness result has no entry
  for the function, where \<^verbatim>\<open>funcBBLiveValsMap.at(F)\<close> throws), and the live-out sets
  the marshaller recorded for the save, restore and junction blocks.
\<close>

record propagation =
  newBBs :: "nat set"
  funcBBLiveVals :: "(nat \<rightharpoonup> val set) option"
  funcSaveBBsLiveOutMap :: "nat \<rightharpoonup> val set"
  funcRestoreBBsLiveOutMap :: "nat \<rightharpoonup> val set"
  funcJunctionBBsLiveOutMap :: "nat \<rightharpoonup> val set"

text \<open>
  What the propagator changes: the function, the next free handle, the work queue and
  the per-block history of value versions.
\<close>

record pstate =
  pfunc :: func
  pnext :: nat
  queue :: "BBUpdateRequest list"
  visitedBBs :: "(nat \<times> val set) list"

text \<open>
  The history \<^verbatim>\<open>visitedBBs\<close> is a \<^verbatim>\<open>std::map\<close> from blocks to sets of
  values: an association list kept in the order of the keys, in which \<^verbatim>\<open>emplace\<close>
  leaves an existing key alone.
\<close>

definition emplaceVisited :: "nat \<Rightarrow> val set \<Rightarrow> (nat \<times> val set) list \<Rightarrow> (nat \<times> val set) list" where
  "emplaceVisited key V m = (if map_of m key = None then insort_key fst (key, V) m else m)"

definition updateMapEntry :: "nat \<Rightarrow> val set \<Rightarrow> (nat \<times> val set) list \<Rightarrow> (nat \<times> val set) list" where
  "updateMapEntry key newV m =
     emplaceVisited key newV (if map_of m key \<noteq> None then filter (\<lambda>p. fst p \<noteq> key) m else m)"

definition getOrDefault :: "nat \<Rightarrow> (nat \<times> val set) list \<Rightarrow> val set \<times> (nat \<times> val set) list" where
  "getOrDefault key m =
     (let m' = (if map_of m key = None then emplaceVisited key {} m else m)
      in (case map_of m' key of None \<Rightarrow> {} | Some S \<Rightarrow> S, m'))"

definition liveOutSetOf :: "propagation \<Rightarrow> nat \<Rightarrow> error + val set" where
  "liveOutSetOf P pred =
     (case funcJunctionBBsLiveOutMap P pred of
        Some S \<Rightarrow> Inr S
      | None \<Rightarrow>
         (case funcSaveBBsLiveOutMap P pred of
            Some S \<Rightarrow> Inr S
          | None \<Rightarrow>
             (case funcRestoreBBsLiveOutMap P pred of
                Some S \<Rightarrow> Inr S
              | None \<Rightarrow>
                 (case funcBBLiveVals P of
                    None \<Rightarrow> Inl OutOfRange
                  | Some L \<Rightarrow> (case L pred of None \<Rightarrow> Inr {} | Some S \<Rightarrow> Inr S)))))"

fun countLiveOut :: "propagation \<Rightarrow> val \<Rightarrow> nat list \<Rightarrow> error + nat" where
  "countLiveOut P v [] = Inr 0"
| "countLiveOut P v (pred # preds) =
     (case liveOutSetOf P pred of
        Inl e \<Rightarrow> Inl e
      | Inr S \<Rightarrow>
         (case countLiveOut P v preds of
            Inl e \<Rightarrow> Inl e
          | Inr c \<Rightarrow> Inr (if v \<in> S then Suc c else c)))"

definition numOfPredsWhereVarIsLiveOut :: "propagation \<Rightarrow> func \<Rightarrow> nat \<Rightarrow> val \<Rightarrow> error + nat" where
  "numOfPredsWhereVarIsLiveOut P F BB v = countLiveOut P v (getBBPredecessors F BB)"

definition isPhi :: "instr \<Rightarrow> bool" where
  "isPhi i = (opcode i = PHI)"

text \<open>The leading \<open>\<phi>\<close>s of a block (\<^verbatim>\<open>BasicBlock::phis()\<close>).\<close>

definition phis :: "instr list \<Rightarrow> instr list" where
  "phis is = takeWhile isPhi is"

definition hasIncomingFrom :: "val set \<Rightarrow> nat \<Rightarrow> instr \<Rightarrow> bool" where
  "hasIncomingFrom vv prev phi =
     list_ex (\<lambda>(v, b). b = prev \<and> v \<in> vv) (zip (operands phi) (incomingBlocks phi))"

definition isPhiInstExistForIncomingBBForTrackedVal :: "val set \<Rightarrow> instr list \<Rightarrow> nat \<Rightarrow> bool" where
  "isPhiInstExistForIncomingBBForTrackedVal vv is prev = list_ex (hasIncomingFrom vv prev) (phis is)"

definition setIncomingValueForBlock :: "instr \<Rightarrow> nat \<Rightarrow> val \<Rightarrow> instr" where
  "setIncomingValueForBlock phi BB V =
     phi\<lparr>operands := map (\<lambda>(v, b). if b = BB then V else v)
                         (zip (operands phi) (incomingBlocks phi))
                      @ drop (length (incomingBlocks phi)) (operands phi)\<rparr>"

definition replaceOperandsInInst :: "val \<Rightarrow> val \<Rightarrow> instr \<Rightarrow> instr" where
  "replaceOperandsInInst old new i =
     i\<lparr>operands := map (\<lambda>v. if v = old then new else v) (operands i)\<rparr>"

text \<open>
  The inner loops of the `modify existing \<open>\<phi>\<close>' branch on one \<open>\<phi>\<close>: the first incoming
  from \<open>prev\<close> whose value is a known version and is not \<open>newV\<close> sets every incoming of
  \<open>prev\<close> to \<open>newV\<close>; after that no incoming of \<open>prev\<close> differs from \<open>newV\<close>.
\<close>

definition needsRewrite :: "val set \<Rightarrow> nat \<Rightarrow> val \<Rightarrow> instr \<Rightarrow> bool" where
  "needsRewrite vv prev newV phi =
     list_ex (\<lambda>(v, b). b = prev \<and> v \<in> vv \<and> v \<noteq> newV) (zip (operands phi) (incomingBlocks phi))"

definition modifyPhi :: "val set \<Rightarrow> nat \<Rightarrow> val \<Rightarrow> instr \<Rightarrow> instr" where
  "modifyPhi vv prev newV phi =
     (if needsRewrite vv prev newV phi then setIncomingValueForBlock phi prev newV else phi)"

text \<open>Whether an instruction of the list is itself one of the versions \<open>vv\<close>.\<close>

definition definesVersion :: "val set \<Rightarrow> instr list \<Rightarrow> bool" where
  "definesVersion vv is = list_ex (\<lambda>inst. Ptr (self inst) \<in> vv) is"

definition succRequests :: "BBUpdateRequest \<Rightarrow> val \<Rightarrow> val set \<Rightarrow> nat list \<Rightarrow> BBUpdateRequest list" where
  "succRequests r nv vv succs =
     map (\<lambda>succBB. \<lparr>startBB = startBB r, currBB = succBB, prevBB = currBB r,
                     oldVal = oldVal r, newVal = nv, valueVersions = vv\<rparr>)
         (filter (\<lambda>succBB. succBB \<noteq> currBB r) succs)"

text \<open>
  The three stop conditions tested at the head of \<^verbatim>\<open>processUpdateRequest\<close>, on the
  state in which the request is taken from the queue.
\<close>

definition stopAtStart :: "BBUpdateRequest \<Rightarrow> pstate \<Rightarrow> bool" where
  "stopAtStart r s = (currBB r = startBB r \<and> map_of (visitedBBs s) (currBB r) \<noteq> None)"

definition stopAtExit :: "BBUpdateRequest \<Rightarrow> pstate \<Rightarrow> bool" where
  "stopAtExit r s = (length (getBBSuccessors (pfunc s) (currBB r)) = 0)"

definition stopSameVersions :: "BBUpdateRequest \<Rightarrow> pstate \<Rightarrow> bool" where
  "stopSameVersions r s =
     (let bbValueVersions = fst (getOrDefault (currBB r) (visitedBBs s))
      in bbValueVersions \<subseteq> valueVersions r \<and> card bbValueVersions = card (valueVersions r))"

definition isJoin :: "propagation \<Rightarrow> BBUpdateRequest \<Rightarrow> pstate \<Rightarrow> error + bool" where
  "isJoin P r s =
     (if currBB r \<notin> newBBs P \<and> hasNPredecessorsOrMore (pfunc s) (currBB r) 2
      then (case numOfPredsWhereVarIsLiveOut P (pfunc s) (currBB r) (oldVal r) of
              Inl e \<Rightarrow> Inl e
            | Inr c \<Rightarrow> Inr (1 < c))
      else Inr False)"

definition modifyExistingPhi :: "BBUpdateRequest \<Rightarrow> pstate \<Rightarrow> pstate" where
  "modifyExistingPhi r s =
     (let is = getBlock (pfunc s) (currBB r);
          vv = valueVersions r;
          (bbVV, visited) = getOrDefault (currBB r) (visitedBBs s);
          touched = list_ex (needsRewrite vv (prevBB r) (newVal r)) (phis is);
          is' = map (modifyPhi vv (prevBB r) (newVal r)) (phis is) @ dropWhile isPhi is
      in s\<lparr>pfunc := updBlock (currBB r) (\<lambda>x. is') (pfunc s),
            visitedBBs := (if touched then updateMapEntry (currBB r) (bbVV \<union> vv) visited
                           else visited)\<rparr>)"

definition addNewPhi :: "env \<Rightarrow> BBUpdateRequest \<Rightarrow> bool \<Rightarrow> pstate \<Rightarrow> pstate" where
  "addNewPhi E r isStop s =
     (let F = pfunc s;
          is = getBlock F (currBB r);
          predecessors = getBBPredecessors F (currBB r);
          (bbVV, visited) = getOrDefault (currBB r) (visitedBBs s);
          phiInputs = map (\<lambda>predBB. if predBB = prevBB r then newVal r else oldVal r) predecessors;
          newPhi = (mkInstr (pnext s) PHI phiInputs (getType E (oldVal r)))
                     \<lparr>incomingBlocks := predecessors\<rparr>;
          vv1 = valueVersions r \<union> set phiInputs;
          is' = newPhi # map (replaceOperandsInInst (oldVal r) (Ptr (pnext s))) is;
          isStop' = (isStop \<or> definesVersion vv1 is');
          vv2 = insert (Ptr (pnext s)) vv1;
          F' = updBlock (currBB r) (\<lambda>x. is') F
      in s\<lparr>pfunc := F',
            pnext := pnext s + 1,
            visitedBBs := updateMapEntry (currBB r) (bbVV \<union> vv2) visited,
            queue := queue s @ (if isStop' then []
                                else succRequests r (Ptr (pnext s)) vv2 (getBBSuccessors F' (currBB r)))\<rparr>)"

definition updateInstructions :: "BBUpdateRequest \<Rightarrow> bool \<Rightarrow> pstate \<Rightarrow> pstate" where
  "updateInstructions r isStop s =
     (let F = pfunc s;
          is = getBlock F (currBB r);
          (bbVV, visited) = getOrDefault (currBB r) (visitedBBs s);
          is' = map (replaceOperandsInInst (oldVal r) (newVal r)) is;
          isStop' = (isStop \<or> definesVersion (valueVersions r) is');
          vv1 = insert (newVal r) (valueVersions r);
          F' = updBlock (currBB r) (\<lambda>x. is') F
      in s\<lparr>pfunc := F',
            visitedBBs := updateMapEntry (currBB r) (bbVV \<union> vv1) visited,
            queue := queue s @ (if isStop' then []
                                else succRequests r (newVal r) vv1 (getBBSuccessors F' (currBB r)))\<rparr>)"

text \<open>
  \<^verbatim>\<open>processUpdateRequest\<close>, on the state from whose queue the request has been taken.
\<close>

definition processUpdateRequest :: "env \<Rightarrow> propagation \<Rightarrow> BBUpdateRequest \<Rightarrow> pstate \<Rightarrow> error + pstate" where
  "processUpdateRequest E P r s =
     (let isStop = (stopAtStart r s \<or> stopAtExit r s \<or> stopSameVersions r s)
      in (case isJoin P r s of
            Inl e \<Rightarrow> Inl e
          | Inr True \<Rightarrow>
              (if isPhiInstExistForIncomingBBForTrackedVal (valueVersions r)
                    (getBlock (pfunc s) (currBB r)) (prevBB r)
               then Inr (modifyExistingPhi r s)
               else Inr (addNewPhi E r isStop s))
          | Inr False \<Rightarrow> Inr (updateInstructions r isStop s)))"

text \<open>
  The \<^verbatim>\<open>while (!q.empty())\<close> loop of \<^verbatim>\<open>propagateRestoredValuesBFS\<close>: one round
  takes the request at the front of the queue and processes it. The loop need not come
  to an end, so its result is optional.
\<close>

definition bfsRound :: "env \<Rightarrow> propagation \<Rightarrow> pstate \<Rightarrow> error + pstate" where
  "bfsRound E P s =
     (case queue s of
        [] \<Rightarrow> Inr s
      | r # q \<Rightarrow> processUpdateRequest E P r (s\<lparr>queue := q\<rparr>))"

partial_function (option) bfsLoop :: "env \<Rightarrow> propagation \<Rightarrow> pstate \<Rightarrow> (error + pstate) option" where
  "bfsLoop E P s =
     (if queue s = [] then Some (Inr s)
      else (case bfsRound E P s of
              Inl e \<Rightarrow> Some (Inl e)
            | Inr s' \<Rightarrow> bfsLoop E P s'))"

declare bfsLoop.simps [code]

text \<open>The state after a number of rounds of the loop, as long as no round fails.\<close>

fun bfsRounds :: "env \<Rightarrow> propagation \<Rightarrow> nat \<Rightarrow> pstate \<Rightarrow> error + pstate" where
  "bfsRounds E P 0 s = Inr s"
| "bfsRounds E P (Suc k) s =
     (case bfsRound E P s of Inl e \<Rightarrow> Inl e | Inr s' \<Rightarrow> bfsRounds E P k s')"

definition propagateRestoredValuesBFS ::
  "env \<Rightarrow> propagation \<Rightarrow> nat \<Rightarrow> nat \<Rightarrow> val \<Rightarrow> val \<Rightarrow> func \<Rightarrow> nat \<Rightarrow> (error + func \<times> nat) option" where
  "propagateRestoredValuesBFS E P start prev oldV newV F n =
     (case bfsLoop E P
             \<lparr>pfunc = F, pnext = n,
              queue = [\<lparr>startBB = start, currBB = start, prevBB = prev, oldVal = oldV,
                        newVal = newV, valueVersions = {oldV, newV}\<rparr>],
              visitedBBs = []\<rparr> of
        None \<Rightarrow> None
      | Some (Inl e) \<Rightarrow> Some (Inl e)
      | Some (Inr s) \<Rightarrow> Some (Inr (pfunc s, pnext s)))"

section \<open>The pass on one function\<close>

record CheckpointTopo =
  checkpointBB :: nat
  saveBB :: nat
  restoreBB :: nat
  junctionBB :: nat
  resumeBB :: nat

text \<open>
  \<^verbatim>\<open>getFuncParams\<close> collects the arguments in a \<^verbatim>\<open>std::set\<close>, which
  \<^verbatim>\<open>getCkptMemSegmentPtr\<close> walks in the order of the handles.
\<close>

definition getFuncParams :: "func \<Rightarrow> nat list" where
  "getFuncParams F = sort (remdups (arguments F))"

definition getCkptMemSegmentPtr :: "env \<Rightarrow> nat list \<Rightarrow> string \<Rightarrow> nat option" where
  "getCkptMemSegmentPtr E funcParams segmentName =
     List.find (\<lambda>arg. drop 1 (getOpName E (Ptr arg)) = segmentName) funcParams"

definition getCkptBBsInFunc :: "func \<Rightarrow> (nat \<times> val list) list \<Rightarrow> nat list" where
  "getCkptBBsInFunc F bbCheckpoints =
     sort (remdups (filter (\<lambda>b. map_of bbCheckpoints b \<noteq> None) (map fst (blocks F))))"

definition getSingleSuccessor :: "func \<Rightarrow> nat \<Rightarrow> nat option" where
  "getSingleSuccessor F b = (case getBBSuccessors F b of [s] \<Rightarrow> Some s | _ \<Rightarrow> None)"

text \<open>The state that the loops of step 3 carry.\<close>

record istate =
  ifunc :: func
  inext :: nat
  inewBBs :: "nat set"
  checkpointBBTopoMap :: "(nat \<times> CheckpointTopo) list"
  saveLiveOut :: "nat \<rightharpoonup> val set"
  restoreLiveOut :: "nat \<rightharpoonup> val set"
  junctionLiveOut :: "nat \<rightharpoonup> val set"

fun propagateAll ::
  "env \<Rightarrow> propagation \<Rightarrow> nat \<Rightarrow> nat \<Rightarrow> (val \<times> val) list \<Rightarrow> val list \<Rightarrow> func \<Rightarrow> nat \<Rightarrow>
     (error + func \<times> nat) option" where
  "propagateAll E P resume junction phiMap [] F n = Some (Inr (F, n))"
| "propagateAll E P resume junction phiMap (v # vs) F n =
     (case map_of (rev phiMap) v of
        None \<Rightarrow> Some (Inl OutOfRange)
      | Some phi \<Rightarrow>
          (case propagateRestoredValuesBFS E P resume junction v phi F n of
             None \<Rightarrow> None
           | Some (Inl e) \<Rightarrow> Some (Inl e)
           | Some (Inr (F1, n1)) \<Rightarrow> propagateAll E P resume junction phiMap vs F1 n1))"

text \<open>
  Steps 3.2 (from the creation of the restore block on), 3.3 and 3.4 for one save block
  whose junction block exists.
\<close>

definition installCheckpoint ::
  "env \<Rightarrow> val \<Rightarrow> (nat \<rightharpoonup> val set) option \<Rightarrow> val list \<Rightarrow> nat \<Rightarrow> nat \<Rightarrow> nat \<Rightarrow> nat \<Rightarrow> istate \<Rightarrow>
     (error + istate) option" where
  "installCheckpoint E ckptMemSegment liveVals trackedVals ckptBB save junction resume st =
     (let restore = inext st;
          F3 = (ifunc st)\<lparr>blocks := blocks (ifunc st)
                              @ [(restore, [mkInstr (restore + 1) Br [Ptr junction] VoidTy])]\<rparr>;
          topo = \<lparr>checkpointBB = ckptBB, saveBB = save, restoreBB = restore,
                  junctionBB = junction, resumeBB = resume\<rparr>;
          topoMap = (if map_of (checkpointBBTopoMap st) ckptBB = None
                     then checkpointBBTopoMap st @ [(ckptBB, topo)]
                     else checkpointBBTopoMap st);
          new = inewBBs st \<union> {restore, junction};
          (F4, n4, phiMap) = marshalValues E ckptMemSegment save restore junction VALUES_START
                               trackedVals F3 (restore + 2);
          sLO = (saveLiveOut st)(save \<mapsto> set trackedVals);
          rLO = (restoreLiveOut st)(restore \<mapsto> set trackedVals);
          jLO = (junctionLiveOut st)(junction \<mapsto> set trackedVals);
          (F5, n5) = storeIsComplete ckptMemSegment save F4 n4;
          P = \<lparr>newBBs = new, funcBBLiveVals = liveVals, funcSaveBBsLiveOutMap = sLO,
               funcRestoreBBsLiveOutMap = rLO, funcJunctionBBsLiveOutMap = jLO\<rparr>
      in (case propagateAll E P resume junction phiMap trackedVals F5 n5 of
            None \<Rightarrow> None
          | Some (Inl e) \<Rightarrow> Some (Inl e)
          | Some (Inr (F6, n6)) \<Rightarrow>
              Some (Inr \<lparr>ifunc = F6, inext = n6, inewBBs = new - {save, restore, junction},
                         checkpointBBTopoMap = topoMap, saveLiveOut = sLO, restoreLiveOut = rLO,
                         junctionLiveOut = jLO\<rparr>)))"

text \<open>
  The loop over the successors of the checkpoint block (steps 3.1 and 3.2). A save block
  that cannot be followed by a junction block stays in the function: the source notes the
  removal as still to be done.
\<close>

fun installOnSuccessors ::
  "env \<Rightarrow> val \<Rightarrow> (nat \<rightharpoonup> val set) option \<Rightarrow> val list \<Rightarrow> nat \<Rightarrow> nat list \<Rightarrow> istate \<Rightarrow>
     (error + istate) option" where
  "installOnSuccessors E c liveVals trackedVals ckptBB [] st = Some (Inr st)"
| "installOnSuccessors E c liveVals trackedVals ckptBB (successorBB # rest) st =
     (case splitEdgeWrapper E (ifunc st) (inext st) ckptBB successorBB of
        Inl e \<Rightarrow> Some (Inl e)
      | Inr None \<Rightarrow> installOnSuccessors E c liveVals trackedVals ckptBB rest st
      | Inr (Some (F1, save, n1)) \<Rightarrow>
          (case getBBSuccessors F1 save of
             [] \<Rightarrow> Some (Inl NullDereference)
           | resume # others \<Rightarrow>
               (case splitEdgeWrapper E F1 n1 save resume of
                  Inl e \<Rightarrow> Some (Inl e)
                | Inr None \<Rightarrow>
                    installOnSuccessors E c liveVals trackedVals ckptBB rest
                      (st\<lparr>ifunc := F1, inext := n1, inewBBs := insert save (inewBBs st)\<rparr>)
                | Inr (Some (F2, junction, n2)) \<Rightarrow>
                    (case installCheckpoint E c liveVals trackedVals ckptBB save junction resume
                            (st\<lparr>ifunc := F2, inext := n2, inewBBs := insert save (inewBBs st)\<rparr>) of
                       None \<Rightarrow> None
                     | Some (Inl e) \<Rightarrow> Some (Inl e)
                     | Some (Inr st') \<Rightarrow>
                         installOnSuccessors E c liveVals trackedVals ckptBB rest st'))))"

text \<open>
  The loop over the checkpoint blocks: its body ends in an unconditional \<^verbatim>\<open>break\<close>, so
  only the first block of the set is ever taken.
\<close>

definition installCheckpoints ::
  "env \<Rightarrow> val \<Rightarrow> (nat \<rightharpoonup> val set) option \<Rightarrow> (nat \<times> val list) list \<Rightarrow> nat list \<Rightarrow> istate \<Rightarrow>
     (error + istate) option" where
  "installCheckpoints E c liveVals bbCheckpoints checkpointBBPtrSet st =
     (case checkpointBBPtrSet of
        [] \<Rightarrow> Some (Inr st)
      | ckptBB # others \<Rightarrow>
          (case map_of bbCheckpoints ckptBB of
             None \<Rightarrow> Some (Inl OutOfRange)
           | Some trackedVals \<Rightarrow>
               installOnSuccessors E c liveVals trackedVals ckptBB
                 (getBBSuccessors (ifunc st) ckptBB) st))"

section \<open>Dispatcher finalizer\<close>

text \<open>
  \<^verbatim>\<open>getCheckpointIdBBMap\<close>: the counter is a \<^verbatim>\<open>uint8_t\<close> that starts at \<open>1\<close>, and
  \<^verbatim>\<open>emplace\<close> keeps the first topology of an id.
\<close>

fun assignIds :: "8 word \<Rightarrow> (nat \<times> CheckpointTopo) list \<Rightarrow> (8 word \<times> CheckpointTopo) list \<Rightarrow>
    (8 word \<times> CheckpointTopo) list" where
  "assignIds c [] acc = acc"
| "assignIds c ((k, t) # r) acc =
     assignIds (c + 1) r (if map_of acc c = None then acc @ [(c, t)] else acc)"

definition getCheckpointIdBBMap :: "(nat \<times> CheckpointTopo) list \<Rightarrow> (8 word \<times> CheckpointTopo) list" where
  "getCheckpointIdBBMap topoMap = assignIds 1 topoMap []"

text \<open>
  Step 4 for one checkpoint: the store of the id and the heartbeat increment in the save
  block, the heartbeat increment in the restore block. The handles \<open>n, \<dots>, n + 9\<close> are
  taken.
\<close>

definition addIdAndHeartbeat :: "val \<Rightarrow> 8 word \<times> CheckpointTopo \<Rightarrow> func \<times> nat \<Rightarrow> func \<times> nat" where
  "addIdAndHeartbeat c entry Fn =
     (case Fn of (F, n) \<Rightarrow>
        (let ckpt_id = fst entry; topo = snd entry;
             F1 = updBlock (saveBB topo)
                    (insertBeforeTerminator
                       [mkInstr n GetElementPtr [c, ConstantInt CKPT_ID] (PointerTy Int32Ty),
                        mkInstr (n + 1) Store [ConstantInt (uint ckpt_id), Ptr n] VoidTy,
                        mkInstr (n + 2) GetElementPtr [c, ConstantInt HEARTBEAT] (PointerTy Int32Ty),
                        mkInstr (n + 3) Load [Ptr (n + 2)] Int32Ty,
                        mkInstr (n + 4) Add [Ptr (n + 3), ConstantInt 1] Int32Ty,
                        mkInstr (n + 5) Store [Ptr (n + 4), Ptr (n + 2)] VoidTy]) F;
             F2 = updBlock (restoreBB topo)
                    (insertBeforeTerminator
                       [mkInstr (n + 6) GetElementPtr [c, ConstantInt HEARTBEAT] (PointerTy Int32Ty),
                        mkInstr (n + 7) Load [Ptr (n + 6)] Int32Ty,
                        mkInstr (n + 8) Add [Ptr (n + 7), ConstantInt 1] Int32Ty,
                        mkInstr (n + 9) Store [Ptr (n + 8), Ptr (n + 6)] VoidTy]) F1
         in (F2, n + 10)))"

definition switchCases :: "(8 word \<times> CheckpointTopo) list \<Rightarrow> val list" where
  "switchCases idMap = concat (map (\<lambda>(i, t). [ConstantInt (uint i), Ptr (restoreBB t)]) idMap)"

text \<open>
  Step 5: the load of the checkpoint id and the switch that takes the place of the
  terminator of the restore controller. The handles \<open>n, n + 1, n + 2\<close> are taken.
\<close>

definition installSwitch ::
  "val \<Rightarrow> nat \<Rightarrow> nat \<Rightarrow> (8 word \<times> CheckpointTopo) list \<Rightarrow> func \<Rightarrow> nat \<Rightarrow> func \<times> nat" where
  "installSwitch c restoreControllerBB restoreControllerSuccessor idMap F n =
     (updBlock restoreControllerBB
        (\<lambda>is. butlast is @
           [mkInstr n GetElementPtr [c, ConstantInt CKPT_ID] (PointerTy Int32Ty),
            mkInstr (n + 1) Load [Ptr n] Int32Ty,
            mkInstr (n + 2) Switch
              ([Ptr (n + 1), Ptr restoreControllerSuccessor] @ switchCases idMap) VoidTy]) F,
      n + 3)"

section \<open>\<^verbatim>\<open>injectSubroutines\<close>\<close>

text \<open>
  How the body of the loop over the functions was left: by which \<^verbatim>\<open>continue\<close>, or at
  its end.
\<close>

datatype exit =
  SkipLinkage | SkipNoTrackedVals | SkipNoCkptMem | SkipOneBlock | SkipNoCandidates
  | SkipSplitFailed | SkipNoCheckpoints | Injected

record outcome =
  ofunc :: func
  onext :: nat
  oexit :: exit
  omodified :: bool
  ocontroller :: "nat option"
  oidMap :: "(8 word \<times> CheckpointTopo) list"

definition leave :: "func \<Rightarrow> nat \<Rightarrow> exit \<Rightarrow> outcome" where
  "leave F n x =
     \<lparr>ofunc = F, onext = n, oexit = x, omodified = False, ocontroller = None, oidMap = []\<rparr>"

text \<open>
  Steps 3 to 5, once the restore controller \<open>rc\<close> with the successor \<open>rcSucc\<close> is in
  place. The switch is installed before the number of checkpoints is looked at.
\<close>

definition instrument ::
  "env \<Rightarrow> val \<Rightarrow> (nat \<rightharpoonup> val set) option \<Rightarrow> (nat \<times> val list) list \<Rightarrow> nat list \<Rightarrow> nat \<Rightarrow> nat \<Rightarrow>
     func \<Rightarrow> nat \<Rightarrow> (error + outcome) option" where
  "instrument E c liveVals bbCheckpoints checkpointBBPtrSet rc rcSucc F n =
     (case installCheckpoints E c liveVals bbCheckpoints checkpointBBPtrSet
             \<lparr>ifunc = F, inext = n, inewBBs = {rc}, checkpointBBTopoMap = [],
              saveLiveOut = Map.empty, restoreLiveOut = Map.empty, junctionLiveOut = Map.empty\<rparr> of
        None \<Rightarrow> None
      | Some (Inl e) \<Rightarrow> Some (Inl e)
      | Some (Inr st) \<Rightarrow>
          (let idMap = getCheckpointIdBBMap (checkpointBBTopoMap st);
               (F1, n1) = foldl (\<lambda>Fn entry. addIdAndHeartbeat c entry Fn) (ifunc st, inext st) idMap;
               (F2, n2) = installSwitch c rc rcSucc idMap F1 n1
           in Some (Inr \<lparr>ofunc = F2, onext = n2,
                         oexit = (if length idMap = 0 then SkipNoCheckpoints else Injected),
                         omodified = True, ocontroller = Some rc, oidMap = idMap\<rparr>)))"

text \<open>
  The body of the loop of \<^verbatim>\<open>injectSubroutines\<close> for the function \<open>F\<close>, with the
  tracked values and the live-out sets the analyses have for it (\<open>None\<close> for a function
  they do not know). A function without blocks is left at the test on the successors of
  the entry block.
\<close>

definition injectFunction ::
  "env \<Rightarrow> (nat \<rightharpoonup> val list) option \<Rightarrow> (nat \<rightharpoonup> val set) option \<Rightarrow> func \<Rightarrow> nat \<Rightarrow>
     (error + outcome) option" where
  "injectFunction E trackedVals liveVals F n =
     (if flinkage F = LinkOnceODRLinkage then Some (Inr (leave F n SkipLinkage))
      else case trackedVals of
        None \<Rightarrow> Some (Inr (leave F n SkipNoTrackedVals))
      | Some bbTrackedVals \<Rightarrow>
         (case getCkptMemSegmentPtr E (getFuncParams F) ''ckpt_mem'' of
            None \<Rightarrow> Some (Inr (leave F n SkipNoCkptMem))
          | Some ckptMem \<Rightarrow>
             (if getNumContainedTypes (getType E (Ptr ckptMem)) = 0 then Some (Inl AssertionFailed)
              else case blocks F of
                [] \<Rightarrow> Some (Inr (leave F n SkipOneBlock))
              | (entryBB, entryInsts) # others \<Rightarrow>
                 (if length (getBBSuccessors F entryBB) < 1 then Some (Inr (leave F n SkipOneBlock))
                  else case selectCheckpointBBs E F bbTrackedVals of
                    Inl e \<Rightarrow> Some (Inl e)
                  | Inr (bbCheckpoints, F0) \<Rightarrow>
                     (if length bbCheckpoints = 0 then Some (Inr (leave F0 n SkipNoCandidates))
                      else case getBBSuccessors F0 entryBB of
                        [] \<Rightarrow> Some (Inl NullDereference)
                      | firstSucc # moreSuccs \<Rightarrow>
                         (case splitEdgeWrapper E F0 n entryBB firstSucc of
                            Inl e \<Rightarrow> Some (Inl e)
                          | Inr None \<Rightarrow> Some (Inr (leave F0 n SkipSplitFailed))
                          | Inr (Some (F1, rc, n1)) \<Rightarrow>
                             (case getSingleSuccessor F1 rc of
                                None \<Rightarrow> Some (Inl NullDereference)
                              | Some rcSucc \<Rightarrow>
                                  instrument E (Ptr ckptMem) liveVals bbCheckpoints
                                    (getCkptBBsInFunc F0 bbCheckpoints) rc rcSucc F1 n1)))))))"

text \<open>
  The loop over the functions of the module. The analyses are keyed by the handle of
  the function; the result is the module after the pass and the flag the pass returns.
\<close>

fun injectSubroutines ::
  "env \<Rightarrow> (nat \<rightharpoonup> (nat \<rightharpoonup> val list)) \<Rightarrow> (nat \<rightharpoonup> (nat \<rightharpoonup> val set)) \<Rightarrow> func list \<Rightarrow> nat \<Rightarrow>
     (error + func list \<times> bool) option" where
  "injectSubroutines E funcBBTrackedValsMap funcBBLiveValsMap [] n = Some (Inr ([], False))"
| "injectSubroutines E funcBBTrackedValsMap funcBBLiveValsMap (F # M) n =
     (case injectFunction E (funcBBTrackedValsMap (fhandle F)) (funcBBLiveValsMap (fhandle F)) F n of
        None \<Rightarrow> None
      | Some (Inl e) \<Rightarrow> Some (Inl e)
      | Some (Inr out) \<Rightarrow>
          (case injectSubroutines E funcBBTrackedValsMap funcBBLiveValsMap M (onext out) of
             None \<Rightarrow> None
           | Some (Inl e) \<Rightarrow> Some (Inl e)
           | Some (Inr (M', isModified)) \<Rightarrow> Some (Inr (ofunc out # M', omodified out \<or> isModified))))"

section \<open>Reading the instrumented code\<close>

text \<open>The list without the first element that satisfies \<open>P\<close>.\<close>

fun eraseFirst :: "('a \<Rightarrow> bool) \<Rightarrow> 'a list \<Rightarrow> 'a list" where
  "eraseFirst P [] = []"
| "eraseFirst P (x # xs) = (if P x then xs else x # eraseFirst P xs)"

text \<open>The tracked values of a block, none for a block the analysis does not list.\<close>

definition trackedAt :: "(nat \<rightharpoonup> val list) \<Rightarrow> nat \<Rightarrow> val list" where
  "trackedAt m b = (case m b of None \<Rightarrow> [] | Some tv \<Rightarrow> tv)"







text \<open>
  Whether the loop is still at work after each of the first \<open>k\<close> rounds: the queue is
  not empty and the round does not fail.
\<close>

fun keepsBusy :: "env \<Rightarrow> propagation \<Rightarrow> nat \<Rightarrow> pstate \<Rightarrow> bool" where
  "keepsBusy E P 0 s = True"
| "keepsBusy E P (Suc k) s =
     (queue s \<noteq> [] \<and> (case bfsRound E P s of Inl e \<Rightarrow> False | Inr s' \<Rightarrow> keepsBusy E P k s'))"

text \<open>
  What one round of the marshaller puts into the save block, into the restore block and
  into the junction block, for the tracked value \<open>v\<close>, the slot \<open>k\<close> and the first free
  handle \<open>n\<close>; and what the whole loop puts there. The marshaller writes \<open>v\<close> as
  the operand of the store (or of the dereferencing load) and as the first incoming of
  the \<open>\<phi>\<close>; the propagator may later put another value \<open>x\<close> in that place, so
  these operands are kept apart from the tracked value they belong to: the lists below
  pair each tracked value with the value found in its place.
\<close>

definition saveInstrs :: "env \<Rightarrow> val \<Rightarrow> int \<Rightarrow> val \<Rightarrow> val \<Rightarrow> nat \<Rightarrow> instr list" where
  "saveInstrs E c k v x n =
     (if isPointerTy (getType E v) then [mkInstr n Load [x] Int32Ty] else []) @
     [mkInstr (n + 1) GetElementPtr [c, ConstantInt k] (PointerTy Int32Ty),
      mkInstr (n + 2) Store [if isPointerTy (getType E v) then Ptr n else x, Ptr (n + 1)] VoidTy]"

definition restoreInstrs :: "env \<Rightarrow> val \<Rightarrow> int \<Rightarrow> val \<Rightarrow> nat \<Rightarrow> instr list" where
  "restoreInstrs E c k v n =
     [mkInstr (n + 3) GetElementPtr [c, ConstantInt k] (PointerTy Int32Ty),
      mkInstr (n + 4) Load [Ptr (n + 3)]
        (if isPointerTy (getType E v) then getContainedType0 (getType E v) else getType E v)] @
     (if isPointerTy (getType E v)
      then [mkInstr (n + 5) Alloca [ConstantInt 1] (PointerTy (getContainedType0 (getType E v))),
            mkInstr (n + 6) Store [Ptr (n + 4), Ptr (n + 5)] VoidTy]
      else [])"

definition junctionPhi :: "env \<Rightarrow> nat \<Rightarrow> nat \<Rightarrow> val \<Rightarrow> val \<Rightarrow> nat \<Rightarrow> instr" where
  "junctionPhi E s r v x n =
     (mkInstr (n + 7) PHI [x, if isPointerTy (getType E v) then Ptr (n + 5) else Ptr (n + 4)]
        (getType E v))\<lparr>incomingBlocks := [s, r]\<rparr>"












text \<open>
  The \<open>\<phi>\<close> that the propagator builds for a request on a join block: one incoming per
  predecessor, the new version from the block the request comes from and the old version
  from every other one.
\<close>

definition newJoinPhi :: "env \<Rightarrow> BBUpdateRequest \<Rightarrow> pstate \<Rightarrow> instr" where
  "newJoinPhi E r s =
     \<lparr>self = pnext s, opcode = PHI,
      operands = map (\<lambda>predBB. if predBB = prevBB r then newVal r else oldVal r)
                   (getBBPredecessors (pfunc s) (currBB r)),
      incomingBlocks = getBBPredecessors (pfunc s) (currBB r),
      calledFunction = None, resultTy = getType E (oldVal r)\<rparr>"

text \<open>
  Two states of a \<open>\<phi>\<close> that have the same incoming blocks and the same incoming values
  from every block other than \<open>prev\<close>.
\<close>

definition otherIncomingsKept :: "nat \<Rightarrow> instr \<Rightarrow> instr \<Rightarrow> bool" where
  "otherIncomingsKept prev phi phi' =
     list_all2 (\<lambda>(v, b) (v', b'). b' = b \<and> (b \<noteq> prev \<longrightarrow> v' = v))
       (zip (operands phi) (incomingBlocks phi)) (zip (operands phi') (incomingBlocks phi'))"

text \<open>
  Two states of a \<open>\<phi>\<close> that have the same incoming blocks, and in the second of which
  every incoming from \<open>prev\<close> whose value was among the versions \<open>vv\<close> has the value
  \<open>newV\<close>.
\<close>

definition incomingRewritten :: "val set \<Rightarrow> nat \<Rightarrow> val \<Rightarrow> instr \<Rightarrow> instr \<Rightarrow> bool" where
  "incomingRewritten vv prev newV phi phi' =
     list_all2 (\<lambda>(v, b) (v', b'). b' = b \<and> (b = prev \<and> v \<in> vv \<longrightarrow> v' = newV))
       (zip (operands phi) (incomingBlocks phi)) (zip (operands phi') (incomingBlocks phi'))"

text \<open>
  A request as the traversal makes them: the old and the new value are among the value
  versions, and every handle among the versions is below the next free handle \<open>n\<close>.
\<close>

definition wellFormedRequest :: "nat \<Rightarrow> BBUpdateRequest \<Rightarrow> bool" where
  "wellFormedRequest n q =
     (oldVal q \<in> valueVersions q \<and> newVal q \<in> valueVersions q \<and>
      (\<forall>h. Ptr h \<in> valueVersions q \<longrightarrow> h < n))"

text \<open>Whether a function has a block of the given handle.\<close>

definition hasBlock :: "func \<Rightarrow> nat \<Rightarrow> bool" where
  "hasBlock F b = (map_of (blocks F) b \<noteq> None)"

text \<open>
  The map of checkpoint topologies while the successors of the checkpoint block \<open>k\<close> are
  worked on: at most one entry, and that one for \<open>k\<close>.
\<close>

definition topoInv :: "nat \<Rightarrow> (nat \<times> CheckpointTopo) list \<Rightarrow> bool" where
  "topoInv k tm = (length tm \<le> 1 \<and> (\<forall>p\<in>set tm. fst p = k \<and> checkpointBB (snd p) = k))"








section \<open>Concrete inputs\<close>

text \<open>
  An environment in which every value prints as \<open>%x\<close>, and a function whose single
  instruction has two distinct operands.
\<close>

definition collisionEnv :: env where
  "collisionEnv = \<lparr>getOpName = (\<lambda>v. ''%x''), getType = (\<lambda>v. Int32Ty), splitFails = (\<lambda>a b. False)\<rparr>"

definition collisionFunc :: func where
  "collisionFunc = \<lparr>fhandle = 0, flinkage = ExternalLinkage, arguments = [],
                    blocks = [(10, [mkInstr 3 Add [Ptr 1, Ptr 2] Int32Ty])]\<rparr>"

definition lastNamed :: "env \<Rightarrow> func \<Rightarrow> string \<Rightarrow> val" where
  "lastNamed E F name = last (filter (\<lambda>v. getOpName E v = name) (allOperands F))"

text \<open>
  A function \<open>f(ckpt_mem, x)\<close> of three blocks: the entry block \<open>10\<close> branches to the
  block \<open>11\<close>, which computes, calls the checkpoint directive and branches to the block
  \<open>12\<close>, which uses \<open>x\<close> and returns. The argument \<open>ckpt_mem\<close> has the handle \<open>1\<close>,
  the argument \<open>x\<close> the handle \<open>2\<close>; \<open>x\<close> is tracked across the block \<open>11\<close>.
\<close>

definition exEnv :: env where
  "exEnv = \<lparr>getOpName = (\<lambda>v. if v = Ptr 1 then ''%ckpt_mem'' else ''%v''),
            getType = (\<lambda>v. if v = Ptr 1 then PointerTy Int32Ty else Int32Ty),
            splitFails = (\<lambda>a b. False)\<rparr>"

definition exCall :: instr where
  "exCall = \<lparr>self = 22, opcode = Call, operands = [Ptr 3], incomingBlocks = [],
             calledFunction = Some ''checkpoint'', resultTy = VoidTy\<rparr>"

definition exFunc :: func where
  "exFunc = \<lparr>fhandle = 0, flinkage = ExternalLinkage, arguments = [1, 2],
             blocks = [(10, [mkInstr 20 Br [Ptr 11] VoidTy]),
                       (11, [mkInstr 21 Add [Ptr 2, ConstantInt 1] Int32Ty, exCall,
                             mkInstr 23 Br [Ptr 12] VoidTy]),
                       (12, [mkInstr 24 Other [Ptr 2] VoidTy, mkInstr 25 Ret [] VoidTy])]\<rparr>"

definition exErased :: func where
  "exErased = exFunc\<lparr>blocks := [(10, [mkInstr 20 Br [Ptr 11] VoidTy]),
                       (11, [mkInstr 21 Add [Ptr 2, ConstantInt 1] Int32Ty,
                             mkInstr 23 Br [Ptr 12] VoidTy]),
                       (12, [mkInstr 24 Other [Ptr 2] VoidTy, mkInstr 25 Ret [] VoidTy])]\<rparr>"

definition exTracked :: "nat \<rightharpoonup> val list" where
  "exTracked = [11 \<mapsto> [Ptr 2]]"

text \<open>Tracked values for the returning block \<open>12\<close> only, which holds no directive.\<close>

definition exUntracked :: "nat \<rightharpoonup> val list" where
  "exUntracked = [12 \<mapsto> [Ptr 2]]"

definition exLive :: "nat \<rightharpoonup> val set" where
  "exLive = [10 \<mapsto> {Ptr 2}, 11 \<mapsto> {Ptr 2}, 12 \<mapsto> {}]"

text \<open>
  A function with a checkpoint in front of a branch. The entry block \<open>0\<close> branches to the
  checkpoint block \<open>11\<close> or to the block \<open>5\<close>; the save block \<open>8\<close>, the restore block
  \<open>10\<close> and the junction block \<open>9\<close> are in place, and the junction block holds the \<open>\<phi>\<close>
  \<open>101\<close> of the tracked argument \<open>100\<close>. The resume block \<open>1\<close> branches to the block \<open>2\<close>,
  which is also reached from \<open>5\<close> and holds the only use of the argument, or directly to
  the loop of the blocks \<open>3\<close> and \<open>4\<close>, which leaves to the exit block \<open>6\<close>. The argument
  is live out of the blocks \<open>0\<close>, \<open>11\<close>, \<open>5\<close> and \<open>1\<close> and dead after its use in \<open>2\<close>.
\<close>

definition loopFunc :: func where
  "loopFunc = \<lparr>fhandle = 0, flinkage = ExternalLinkage, arguments = [100, 1],
               blocks = [(0, [mkInstr 50 Br [Ptr 90, Ptr 5, Ptr 11] VoidTy]),
                         (11, [mkInstr 51 Br [Ptr 8] VoidTy]),
                         (8, [mkInstr 60 GetElementPtr [Ptr 1, ConstantInt 3] (PointerTy Int32Ty),
                              mkInstr 61 Store [Ptr 100, Ptr 60] VoidTy,
                              mkInstr 52 Br [Ptr 9] VoidTy]),
                         (9, [(mkInstr 101 PHI [Ptr 100, Ptr 63] Int32Ty)\<lparr>incomingBlocks := [8, 10]\<rparr>,
                              mkInstr 53 Br [Ptr 1] VoidTy]),
                         (1, [mkInstr 54 Br [Ptr 91, Ptr 3, Ptr 2] VoidTy]),
                         (2, [mkInstr 70 Other [Ptr 100] VoidTy, mkInstr 55 Br [Ptr 3] VoidTy]),
                         (3, [mkInstr 56 Br [Ptr 4] VoidTy]),
                         (4, [mkInstr 57 Br [Ptr 92, Ptr 6, Ptr 3] VoidTy]),
                         (6, [mkInstr 58 Ret [] VoidTy]),
                         (5, [mkInstr 59 Br [Ptr 2] VoidTy]),
                         (10, [mkInstr 62 GetElementPtr [Ptr 1, ConstantInt 3] (PointerTy Int32Ty),
                               mkInstr 63 Load [Ptr 62] Int32Ty,
                               mkInstr 64 Br [Ptr 9] VoidTy])]\<rparr>"

definition loopProp :: propagation where
  "loopProp = \<lparr>newBBs = {8, 9, 10},
               funcBBLiveVals = Some [0 \<mapsto> {Ptr 100}, 11 \<mapsto> {Ptr 100}, 5 \<mapsto> {Ptr 100},
                                      1 \<mapsto> {Ptr 100}, 2 \<mapsto> {}, 3 \<mapsto> {}, 4 \<mapsto> {}, 6 \<mapsto> {}],
               funcSaveBBsLiveOutMap = [8 \<mapsto> {Ptr 100}],
               funcRestoreBBsLiveOutMap = [10 \<mapsto> {Ptr 100}],
               funcJunctionBBsLiveOutMap = [9 \<mapsto> {Ptr 100}]\<rparr>"

definition loopStart :: pstate where
  "loopStart = \<lparr>pfunc = loopFunc, pnext = 200,
                queue = [\<lparr>startBB = 1, currBB = 1, prevBB = 9, oldVal = Ptr 100,
                          newVal = Ptr 101, valueVersions = {Ptr 100, Ptr 101}\<rparr>],
                visitedBBs = []\<rparr>"

text \<open>
  A loop header \<open>2\<close> with the \<open>\<phi>\<close> \<open>80\<close> of the value \<open>100\<close> from the block \<open>1\<close> and of
  \<open>81\<close> from the latch \<open>3\<close>, and a request that reaches it from \<open>1\<close> with the new
  version \<open>101\<close>. The traversal started at the block \<open>1\<close>.
\<close>

definition headerFunc :: func where
  "headerFunc = \<lparr>fhandle = 0, flinkage = ExternalLinkage, arguments = [100, 1],
                 blocks = [(1, [mkInstr 54 Br [Ptr 2] VoidTy]),
                           (2, [(mkInstr 80 PHI [Ptr 100, Ptr 81] Int32Ty)\<lparr>incomingBlocks := [1, 3]\<rparr>,
                                mkInstr 55 Br [Ptr 3] VoidTy]),
                           (3, [mkInstr 81 Add [Ptr 80, ConstantInt 1] Int32Ty,
                                mkInstr 56 Br [Ptr 91, Ptr 4, Ptr 2] VoidTy]),
                           (4, [mkInstr 57 Ret [] VoidTy])]\<rparr>"

definition headerProp :: propagation where
  "headerProp = \<lparr>newBBs = {},
                 funcBBLiveVals = Some [1 \<mapsto> {Ptr 100}, 2 \<mapsto> {Ptr 100}, 3 \<mapsto> {Ptr 100}, 4 \<mapsto> {}],
                 funcSaveBBsLiveOutMap = Map.empty,
                 funcRestoreBBsLiveOutMap = Map.empty,
                 funcJunctionBBsLiveOutMap = Map.empty\<rparr>"

definition headerRequest :: BBUpdateRequest where
  "headerRequest = \<lparr>startBB = 1, currBB = 2, prevBB = 1, oldVal = Ptr 100, newVal = Ptr 101,
                     valueVersions = {Ptr 100, Ptr 101}\<rparr>"

definition headerState :: pstate where
  "headerState = \<lparr>pfunc = headerFunc, pnext = 200, queue = [],
                  visitedBBs = [(1, {Ptr 100, Ptr 101})]\<rparr>"

text \<open>
  A loop of the single block \<open>2\<close>, entered from the block \<open>1\<close> and left to the block \<open>3\<close>,
  in which the value \<open>100\<close> is used and of which it is live out; and the request that
  reaches the loop from \<open>1\<close>.
\<close>

definition selfLoopFunc :: func where
  "selfLoopFunc = \<lparr>fhandle = 0, flinkage = ExternalLinkage, arguments = [100, 1],
                   blocks = [(1, [mkInstr 54 Br [Ptr 2] VoidTy]),
                             (2, [mkInstr 70 Other [Ptr 100] VoidTy,
                                  mkInstr 55 Br [Ptr 91, Ptr 3, Ptr 2] VoidTy]),
                             (3, [mkInstr 71 Other [Ptr 100] VoidTy, mkInstr 57 Ret [] VoidTy])]\<rparr>"

definition selfLoopProp :: propagation where
  "selfLoopProp = \<lparr>newBBs = {},
                   funcBBLiveVals = Some [1 \<mapsto> {Ptr 100}, 2 \<mapsto> {Ptr 100}, 3 \<mapsto> {}],
                   funcSaveBBsLiveOutMap = Map.empty,
                   funcRestoreBBsLiveOutMap = Map.empty,
                   funcJunctionBBsLiveOutMap = Map.empty\<rparr>"

definition selfLoopState :: pstate where
  "selfLoopState = \<lparr>pfunc = selfLoopFunc, pnext = 200, queue = [],
                    visitedBBs = [(1, {Ptr 100, Ptr 101})]\<rparr>"

text \<open>The two states above after the request has been processed.\<close>

definition headerAfter :: pstate where
  "headerAfter =
     \<lparr>pfunc = headerFunc\<lparr>blocks :=
                 [(1, [mkInstr 54 Br [Ptr 2] VoidTy]),
                  (2, [(mkInstr 80 PHI [Ptr 101, Ptr 81] Int32Ty)\<lparr>incomingBlocks := [1, 3]\<rparr>,
                       mkInstr 55 Br [Ptr 3] VoidTy]),
                  (3, [mkInstr 81 Add [Ptr 80, ConstantInt 1] Int32Ty,
                       mkInstr 56 Br [Ptr 91, Ptr 4, Ptr 2] VoidTy]),
                  (4, [mkInstr 57 Ret [] VoidTy])]\<rparr>,
      pnext = 200, queue = [],
      visitedBBs = [(1, {Ptr 100, Ptr 101}), (2, {Ptr 100, Ptr 101})]\<rparr>"

definition selfLoopAfter :: pstate where
  "selfLoopAfter =
     \<lparr>pfunc = selfLoopFunc\<lparr>blocks :=
                 [(1, [mkInstr 54 Br [Ptr 2] VoidTy]),
                  (2, [(mkInstr 200 PHI [Ptr 101, Ptr 100] Int32Ty)\<lparr>incomingBlocks := [1, 2]\<rparr>,
                       mkInstr 70 Other [Ptr 200] VoidTy,
                       mkInstr 55 Br [Ptr 91, Ptr 3, Ptr 2] VoidTy]),
                  (3, [mkInstr 71 Other [Ptr 100] VoidTy, mkInstr 57 Ret [] VoidTy])]\<rparr>,
      pnext = 201,
      queue = [\<lparr>startBB = 1, currBB = 3, prevBB = 2, oldVal = Ptr 100, newVal = Ptr 200,
                valueVersions = {Ptr 200, Ptr 101, Ptr 100}\<rparr>],
      visitedBBs = [(1, {Ptr 100, Ptr 101}), (2, {Ptr 200, Ptr 101, Ptr 100})]\<rparr>"

text \<open>
  The function \<open>exFunc\<close> after the pass, with the first free handle \<open>100\<close>: the restore
  controller \<open>100\<close>, the save block \<open>102\<close>, the junction block \<open>104\<close> and the restore
  block \<open>106\<close>.
\<close>

definition exInjected :: outcome where
  "exInjected =
     \<lparr>ofunc = exFunc\<lparr>blocks :=
        [(10, [mkInstr 101 Br [Ptr 100] VoidTy]),
         (100, [mkInstr 128 GetElementPtr [Ptr 1, ConstantInt 1] (PointerTy Int32Ty),
                mkInstr 129 Load [Ptr 128] Int32Ty,
                mkInstr 130 Switch [Ptr 129, Ptr 11, ConstantInt 1, Ptr 106] VoidTy]),
         (11, [mkInstr 21 Add [Ptr 2, ConstantInt 1] Int32Ty, mkInstr 103 Br [Ptr 102] VoidTy]),
         (102, [mkInstr 109 GetElementPtr [Ptr 1, ConstantInt 3] (PointerTy Int32Ty),
                mkInstr 110 Store [Ptr 2, Ptr 109] VoidTy,
                mkInstr 116 GetElementPtr [Ptr 1, ConstantInt 2] (PointerTy Int32Ty),
                mkInstr 117 Store [ConstantInt 1, Ptr 116] VoidTy,
                mkInstr 118 GetElementPtr [Ptr 1, ConstantInt 1] (PointerTy Int32Ty),
                mkInstr 119 Store [ConstantInt 1, Ptr 118] VoidTy,
                mkInstr 120 GetElementPtr [Ptr 1, ConstantInt 0] (PointerTy Int32Ty),
                mkInstr 121 Load [Ptr 120] Int32Ty,
                mkInstr 122 Add [Ptr 121, ConstantInt 1] Int32Ty,
                mkInstr 123 Store [Ptr 122, Ptr 120] VoidTy,
                mkInstr 105 Br [Ptr 104] VoidTy]),
         (104, [(mkInstr 115 PHI [Ptr 2, Ptr 112] Int32Ty)\<lparr>incomingBlocks := [102, 106]\<rparr>,
                mkInstr 23 Br [Ptr 12] VoidTy]),
         (12, [mkInstr 24 Other [Ptr 115] VoidTy, mkInstr 25 Ret [] VoidTy]),
         (106, [mkInstr 111 GetElementPtr [Ptr 1, ConstantInt 3] (PointerTy Int32Ty),
                mkInstr 112 Load [Ptr 111] Int32Ty,
                mkInstr 124 GetElementPtr [Ptr 1, ConstantInt 0] (PointerTy Int32Ty),
                mkInstr 125 Load [Ptr 124] Int32Ty,
                mkInstr 126 Add [Ptr 125, ConstantInt 1] Int32Ty,
                mkInstr 127 Store [Ptr 126, Ptr 124] VoidTy,
                mkInstr 107 Br [Ptr 104] VoidTy])]\<rparr>,
      onext = 131, oexit = Injected, omodified = True, ocontroller = Some 100,
      oidMap = [(1, \<lparr>checkpointBB = 11, saveBB = 102, restoreBB = 106, junctionBB = 104,
                       resumeBB = 12\<rparr>)]\<rparr>"

text \<open>
  A function with two checkpoint directives: the entry block \<open>10\<close> branches to the block
  \<open>14\<close>, which calls the directive and branches to the block \<open>12\<close>, which calls it again
  and branches to the returning block \<open>13\<close>. Then the function once the directives are
  erased, and the function after the pass, with the first free handle \<open>100\<close>.
\<close>

definition twoFunc :: func where
  "twoFunc = \<lparr>fhandle = 0, flinkage = ExternalLinkage, arguments = [1, 2],
              blocks = [(10, [mkInstr 20 Br [Ptr 14] VoidTy]),
                        (14, [mkInstr 21 Add [Ptr 2, ConstantInt 1] Int32Ty, exCall,
                              mkInstr 23 Br [Ptr 12] VoidTy]),
                        (12, [exCall\<lparr>self := 26\<rparr>, mkInstr 24 Other [Ptr 2] VoidTy,
                              mkInstr 27 Br [Ptr 13] VoidTy]),
                        (13, [mkInstr 25 Ret [] VoidTy])]\<rparr>"

definition twoTracked :: "nat \<rightharpoonup> val list" where
  "twoTracked = [14 \<mapsto> [Ptr 2], 12 \<mapsto> [Ptr 2]]"

definition twoLive :: "nat \<rightharpoonup> val set" where
  "twoLive = [10 \<mapsto> {Ptr 2}, 14 \<mapsto> {Ptr 2}, 12 \<mapsto> {}, 13 \<mapsto> {}]"

definition twoErased :: func where
  "twoErased = twoFunc\<lparr>blocks :=
     [(10, [mkInstr 20 Br [Ptr 14] VoidTy]),
      (14, [mkInstr 21 Add [Ptr 2, ConstantInt 1] Int32Ty, mkInstr 23 Br [Ptr 12] VoidTy]),
      (12, [mkInstr 24 Other [Ptr 2] VoidTy, mkInstr 27 Br [Ptr 13] VoidTy]),
      (13, [mkInstr 25 Ret [] VoidTy])]\<rparr>"

definition twoInjected :: outcome where
  "twoInjected =
     \<lparr>ofunc = twoFunc\<lparr>blocks :=
        [(10, [mkInstr 101 Br [Ptr 100] VoidTy]),
         (100, [mkInstr 128 GetElementPtr [Ptr 1, ConstantInt 1] (PointerTy Int32Ty),
                mkInstr 129 Load [Ptr 128] Int32Ty,
                mkInstr 130 Switch [Ptr 129, Ptr 14, ConstantInt 1, Ptr 106] VoidTy]),
         (14, [mkInstr 21 Add [Ptr 2, ConstantInt 1] Int32Ty, mkInstr 23 Br [Ptr 12] VoidTy]),
         (12, [mkInstr 24 Other [Ptr 2] VoidTy, mkInstr 103 Br [Ptr 102] VoidTy]),
         (102, [mkInstr 109 GetElementPtr [Ptr 1, ConstantInt 3] (PointerTy Int32Ty),
                mkInstr 110 Store [Ptr 2, Ptr 109] VoidTy,
                mkInstr 116 GetElementPtr [Ptr 1, ConstantInt 2] (PointerTy Int32Ty),
                mkInstr 117 Store [ConstantInt 1, Ptr 116] VoidTy,
                mkInstr 118 GetElementPtr [Ptr 1, ConstantInt 1] (PointerTy Int32Ty),
                mkInstr 119 Store [ConstantInt 1, Ptr 118] VoidTy,
                mkInstr 120 GetElementPtr [Ptr 1, ConstantInt 0] (PointerTy Int32Ty),
                mkInstr 121 Load [Ptr 120] Int32Ty,
                mkInstr 122 Add [Ptr 121, ConstantInt 1] Int32Ty,
                mkInstr 123 Store [Ptr 122, Ptr 120] VoidTy,
                mkInstr 105 Br [Ptr 104] VoidTy]),
         (104, [(mkInstr 115 PHI [Ptr 2, Ptr 112] Int32Ty)\<lparr>incomingBlocks := [102, 106]\<rparr>,
                mkInstr 27 Br [Ptr 13] VoidTy]),
         (13, [mkInstr 25 Ret [] VoidTy]),
         (106, [mkInstr 111 GetElementPtr [Ptr 1, ConstantInt 3] (PointerTy Int32Ty),
                mkInstr 112 Load [Ptr 111] Int32Ty,
                mkInstr 124 GetElementPtr [Ptr 1, ConstantInt 0] (PointerTy Int32Ty),
                mkInstr 125 Load [Ptr 124] Int32Ty,
                mkInstr 126 Add [Ptr 125, ConstantInt 1] Int32Ty,
                mkInstr 127 Store [Ptr 126, Ptr 124] VoidTy,
                mkInstr 107 Br [Ptr 104] VoidTy])]\<rparr>,
      onext = 131, oexit = Injected, omodified = True, ocontroller = Some 100,
      oidMap = [(1, \<lparr>checkpointBB = 12, saveBB = 102, restoreBB = 106, junctionBB = 104,
                       resumeBB = 13\<rparr>)]\<rparr>"










section \<open>Properties of the inputs binder\<close>

lemma emplace_apply:
  "emplace k v m n =
     (case m n of Some w \<Rightarrow> Some w | None \<Rightarrow> if k = n then Some v else None)"
  by (auto simp: emplace_def split: option.splits)

lemma foldl_emplace_find:
  "foldl (\<lambda>m v. emplace (nm v) v m) m0 vs n =
     (case m0 n of Some w \<Rightarrow> Some w | None \<Rightarrow> List.find (\<lambda>v. nm v = n) vs)"
proof (induction vs arbitrary: m0)
  case Nil
  then show ?case by (simp split: option.splits)
next
  case (Cons v vs)
  have "foldl (\<lambda>m v. emplace (nm v) v m) m0 (v # vs) n =
        foldl (\<lambda>m v. emplace (nm v) v m) (emplace (nm v) v m0) vs n" by simp
  also have "\<dots> = (case emplace (nm v) v m0 n of Some w \<Rightarrow> Some w
                     | None \<Rightarrow> List.find (\<lambda>v. nm v = n) vs)"
    by (rule Cons.IH)
  also have "\<dots> = (case m0 n of Some w \<Rightarrow> Some w
                     | None \<Rightarrow> List.find (\<lambda>v. nm v = n) (v # vs))"
    by (simp add: emplace_apply split: option.splits)
  finally show ?case .
qed

text \<open>
  C8, as the code has it. The binder scans every operand of every instruction of every
  block of the function, in program order, and binds a name to the first operand that
  carries it: a later operand of the same name does not replace the binding.
\<close>

theorem valuePtrsMap_first_wins:
  "valuePtrsMap E F name = List.find (\<lambda>v. getOpName E v = name) (allOperands F)"
  by (simp add: valuePtrsMap_def foldl_emplace_find)

text \<open>
  C8, as the specification words it, fails: with the operands \<open>Ptr 1\<close> and \<open>Ptr 2\<close>
  of one instruction under the same name, the name is bound to \<open>Ptr 1\<close>, not to the
  operand scanned last.
\<close>

theorem valuePtrsMap_last_wins_counterexample:
  "valuePtrsMap collisionEnv collisionFunc ''%x'' = Some (Ptr 1) \<and>
   lastNamed collisionEnv collisionFunc ''%x'' = Ptr 2"
  by (simp add: valuePtrsMap_def lastNamed_def allOperands_def mkInstr_def emplace_def
      collisionEnv_def collisionFunc_def)

section \<open>Properties of the candidate selector\<close>

lemma scanBlock_result:
  "scanBlock m b is = Inr (is', r) \<Longrightarrow>
     r = (if \<exists>i\<in>set is. isDirective i then m b else None) \<and>
     is' = (if m b \<noteq> None then eraseFirst isDirective is else is)"
proof (induction "is" arbitrary: is' r)
  case Nil
  then show ?case by simp
next
  case (Cons i "is")
  show ?case
  proof (cases "isDirective i \<and> m b \<noteq> None")
    case True
    then have "scanBlock m b (i # is) = Inr (is, m b)"
      by (auto simp: isDirective_def split: option.splits)
    with Cons.prems True show ?thesis by auto
  next
    case False
    then obtain is2 r2 where s: "scanBlock m b is = Inr (is2, r2)" and e: "is' = i # is2" "r = r2"
      using Cons.prems
      by (auto simp: isDirective_def split: option.splits if_splits sum.splits)
    from Cons.IH[OF s] have ih: "r2 = (if \<exists>i\<in>set is. isDirective i then m b else None)"
      "is2 = (if m b \<noteq> None then eraseFirst isDirective is else is)" by auto
    show ?thesis
    proof (cases "m b")
      case None
      with ih e show ?thesis by auto
    next
      case (Some tv)
      with False have nd: "\<not> isDirective i" by simp
      with ih e Some show ?thesis by auto
    qed
  qed
qed

lemma chooseBlocks_result:
  "chooseBlocks m bs = Inr (cp, bs') \<Longrightarrow> distinct (map fst bs) \<Longrightarrow>
     map fst bs' = map fst bs \<and>
     (\<forall>b. map_of cp b =
        (case map_of bs b of None \<Rightarrow> None
         | Some is \<Rightarrow> if \<exists>i\<in>set is. isDirective i then m b else None)) \<and>
     (\<forall>b. map_of bs' b =
        (case map_of bs b of None \<Rightarrow> None
         | Some is \<Rightarrow> Some (if m b \<noteq> None then eraseFirst isDirective is else is)))"
proof (induction bs arbitrary: cp bs')
  case Nil
  then show ?case by simp
next
  case (Cons p bs)
  obtain b0 is0 where p: "p = (b0, is0)" by (cases p)
  from Cons.prems(1) p obtain is1 r cp1 bs1 where
    s: "scanBlock m b0 is0 = Inr (is1, r)" and
    c: "chooseBlocks m bs = Inr (cp1, bs1)" and
    cp: "cp = (case r of None \<Rightarrow> cp1 | Some tv \<Rightarrow> (b0, tv) # filter (\<lambda>(k, w). k \<noteq> b0) cp1)" and
    bs': "bs' = (b0, is1) # bs1"
    by (auto split: sum.splits prod.splits)
  from Cons.prems(2) p have d: "distinct (map fst bs)" and nb: "b0 \<notin> fst ` set bs" by auto
  note ih = Cons.IH[OF c d]
  note sr = scanBlock_result[OF s]
  have nb1: "map_of bs b0 = None" using nb by (simp add: map_of_eq_None_iff)
  have cp1b0: "map_of cp1 b0 = None" using ih nb1 by simp
  have filt: "filter (\<lambda>(k, w). k \<noteq> b0) cp1 = cp1"
    using cp1b0 by (auto simp: filter_id_conv map_of_eq_None_iff image_iff)
  show ?case
  proof (intro conjI allI)
    show "map fst bs' = map fst (p # bs)" using ih bs' p by simp
  next
    fix b
    show "map_of cp b = (case map_of (p # bs) b of None \<Rightarrow> None
         | Some is \<Rightarrow> if \<exists>i\<in>set is. isDirective i then m b else None)"
    proof (cases "b = b0")
      case True
      then show ?thesis using sr cp p filt cp1b0 by (cases r) (auto split: if_splits)
    next
      case False
      then show ?thesis using ih cp p filt by (cases r) auto
    qed
  next
    fix b
    show "map_of bs' b = (case map_of (p # bs) b of None \<Rightarrow> None
         | Some is \<Rightarrow> Some (if m b \<noteq> None then eraseFirst isDirective is else is))"
      using ih bs' p sr by auto
  qed
qed

lemma getBlock_in:
  "distinct (map fst (blocks F)) \<Longrightarrow> b \<in> fst ` set (blocks F) \<Longrightarrow>
     map_of (blocks F) b = Some (getBlock F b)"
  by (auto simp: getBlock_def split: option.splits simp: map_of_eq_None_iff)

lemma eraseFirst_none: "\<forall>x\<in>set xs. \<not> P x \<Longrightarrow> eraseFirst P xs = xs"
  by (induction xs) auto

text \<open>
  C4. Of the blocks of a function (whose handles are distinct), the selector enters into
  the checkpoint map exactly those that have one successor, keep a tracked value once
  the pointers to types with contained types are removed, and hold a call whose callee
  name contains \<open>checkpoint\<close>; the first such call of a selected block is erased, and no
  other block changes.
\<close>

theorem checkpoint_block_selected_iff:
  assumes sel: "selectCheckpointBBs E F tv = Inr (cp, F')"
    and d: "distinct (map fst (blocks F))"
    and b: "b \<in> fst ` set (blocks F)"
  shows "(map_of cp b \<noteq> None \<longleftrightarrow>
            length (getBBSuccessors F b) = 1 \<and>
            filter (\<lambda>v. \<not> isNestedPtr E v) (trackedAt tv b) \<noteq> [] \<and>
            (\<exists>i\<in>set (getBlock F b). isDirective i)) \<and>
         getBlock F' b =
           (if map_of cp b \<noteq> None then eraseFirst isDirective (getBlock F b) else getBlock F b)"
proof -
  let ?m = "candidateFilter E F tv"
  from sel obtain bs where c: "chooseBlocks ?m (blocks F) = Inr (cp, bs)" and F': "F' = F\<lparr>blocks := bs\<rparr>"
    by (auto simp: selectCheckpointBBs_def chooseBBWithCheckpointDirective_def split: sum.splits)
  note r = chooseBlocks_result[OF c d]
  have mb: "map_of (blocks F) b = Some (getBlock F b)" using getBlock_in[OF d b] .
  have m: "?m b \<noteq> None \<longleftrightarrow> length (getBBSuccessors F b) = 1 \<and>
            filter (\<lambda>v. \<not> isNestedPtr E v) (trackedAt tv b) \<noteq> []"
    by (auto simp: candidateFilter_def removeBBsWithNoTrackedVals_def
        removeNestedPtrTrackedVals_def getBBsWithOneSuccessor_def trackedAt_def
        split: option.splits if_splits)
  have cpb: "map_of cp b = (if \<exists>i\<in>set (getBlock F b). isDirective i then ?m b else None)"
    using r mb by simp
  have bsb: "map_of bs b = Some (if ?m b \<noteq> None then eraseFirst isDirective (getBlock F b) else getBlock F b)"
    using r mb by simp
  have g: "getBlock F' b = (if ?m b \<noteq> None then eraseFirst isDirective (getBlock F b) else getBlock F b)"
    using bsb F' by (simp add: getBlock_def)
  show ?thesis
  proof (cases "\<exists>i\<in>set (getBlock F b). isDirective i")
    case True
    then show ?thesis using cpb m g by auto
  next
    case False
    then have "eraseFirst isDirective (getBlock F b) = getBlock F b"
      by (intro eraseFirst_none) simp
    then show ?thesis using cpb m g False by auto
  qed
qed

lemma exFunc_selection:
  "selectCheckpointBBs exEnv exFunc exTracked = Inr ([(11, [Ptr 2])], exErased)"
  by (simp add: selectCheckpointBBs_def chooseBBWithCheckpointDirective_def candidateFilter_def
      removeBBsWithNoTrackedVals_def removeNestedPtrTrackedVals_def getBBsWithOneSuccessor_def
      exFunc_def exErased_def exTracked_def exEnv_def exCall_def mkInstr_def getBBSuccessors_def
      getBlock_def termSuccessors_def successors_def isNestedPtr_def)

theorem checkpoint_block_selected_iff_witness:
  "selectCheckpointBBs exEnv exFunc exTracked = Inr ([(11, [Ptr 2])], exErased) \<and>
   distinct (map fst (blocks exFunc)) \<and> 11 \<in> fst ` set (blocks exFunc) \<and>
   map_of [(11, [Ptr 2])] (11::nat) \<noteq> None \<and>
   length (getBBSuccessors exFunc 11) = 1 \<and>
   filter (\<lambda>v. \<not> isNestedPtr exEnv v) (trackedAt exTracked 11) \<noteq> [] \<and>
   getBlock exErased 11 = eraseFirst isDirective (getBlock exFunc 11)"
proof -
  have d: "distinct (map fst (blocks exFunc))" by (simp add: exFunc_def)
  have b: "11 \<in> fst ` set (blocks exFunc)" by (simp add: exFunc_def)
  from checkpoint_block_selected_iff[OF exFunc_selection d b] exFunc_selection d b
  show ?thesis by simp
qed

section \<open>Functions the pass leaves before it changes them\<close>

text \<open>
  C10. A function of linkage \<open>LinkOnceODR\<close> leaves the loop body at its first test:
  whatever the analyses hold for it and whatever its blocks contain, the pass returns
  for it, the function is the one that came in, and no handle has been taken.
\<close>

theorem linkonce_odr_untouched:
  "flinkage F = LinkOnceODRLinkage \<Longrightarrow>
     injectFunction E trackedVals liveVals F n =
       Some (Inr \<lparr>ofunc = F, onext = n, oexit = SkipLinkage, omodified = False,
                  ocontroller = None, oidMap = []\<rparr>)"
  by (simp add: injectFunction_def leave_def)

theorem linkonce_odr_untouched_witness:
  "flinkage (exFunc\<lparr>flinkage := LinkOnceODRLinkage\<rparr>) = LinkOnceODRLinkage \<and>
   injectFunction exEnv (Some exTracked) (Some exLive) (exFunc\<lparr>flinkage := LinkOnceODRLinkage\<rparr>) 100 =
     Some (Inr \<lparr>ofunc = exFunc\<lparr>flinkage := LinkOnceODRLinkage\<rparr>, onext = 100, oexit = SkipLinkage,
                omodified = False, ocontroller = None, oidMap = []\<rparr>)"
  using linkonce_odr_untouched[of "exFunc\<lparr>flinkage := LinkOnceODRLinkage\<rparr>" exEnv "Some exTracked" "Some exLive" 100]
  by simp

lemma injectSubroutines_linkonce:
  "injectSubroutines E tvm lvm M n = Some (Inr (M', modified)) \<Longrightarrow> i < length M \<Longrightarrow>
     flinkage (M ! i) = LinkOnceODRLinkage \<Longrightarrow> M' ! i = M ! i"
proof (induction M arbitrary: n M' modified i)
  case Nil
  then show ?case by simp
next
  case (Cons F M)
  from Cons.prems(1) obtain out M2 m2 where
    o: "injectFunction E (tvm (fhandle F)) (lvm (fhandle F)) F n = Some (Inr out)" and
    r: "injectSubroutines E tvm lvm M (onext out) = Some (Inr (M2, m2))" and
    M': "M' = ofunc out # M2"
    by (auto split: option.splits sum.splits prod.splits)
  show ?case
  proof (cases i)
    case 0
    with Cons.prems(3) have "flinkage F = LinkOnceODRLinkage" by simp
    then have "injectFunction E (tvm (fhandle F)) (lvm (fhandle F)) F n =
                 Some (Inr (leave F n SkipLinkage))"
      by (simp add: injectFunction_def)
    with o have "out = leave F n SkipLinkage" by simp
    then have "ofunc out = F" by (simp add: leave_def)
    with 0 M' show ?thesis by simp
  next
    case (Suc j)
    with Cons.prems have "j < length M" "flinkage (M ! j) = LinkOnceODRLinkage" by auto
    from Cons.IH[OF r this] Suc M' show ?thesis by simp
  qed
qed

section \<open>Properties of the marshaller\<close>


lemma map_of_updBlock:
  "map_of (blocks (updBlock b f F)) b' =
     (if b' = b then map_option f (map_of (blocks F) b) else map_of (blocks F) b')"
proof -
  have "map_of (map (\<lambda>(k, is). if k = b then (k, f is) else (k, is)) bs) b' =
        (if b' = b then map_option f (map_of bs b) else map_of bs b')" for bs
    by (induction bs) auto
  then show ?thesis by (simp add: updBlock_def)
qed

lemma getBlock_updBlock:
  "getBlock (updBlock b f F) b' =
     (if b' = b \<and> map_of (blocks F) b \<noteq> None then f (getBlock F b) else getBlock F b')"
  by (auto simp: getBlock_def map_of_updBlock split: option.splits)



lemma marshalValue_eq:
  "marshalValue E c s r j k v F n =
     (updBlock j (insertBeforeTerminator [junctionPhi E s r v v n])
        (updBlock r (insertBeforeTerminator (restoreInstrs E c k v n))
           (updBlock s (insertBeforeTerminator (saveInstrs E c k v v n)) F)),
      n + 8, (v, Ptr (n + 7)))"
  by (simp add: marshalValue_def Let_def saveInstrs_def restoreInstrs_def junctionPhi_def)





lemma find_append:
  "List.find P (xs @ ys) = (case List.find P xs of None \<Rightarrow> List.find P ys | Some x \<Rightarrow> Some x)"
  by (induction xs) auto

lemma find_none: "\<forall>x\<in>set xs. \<not> P x \<Longrightarrow> List.find P xs = None"
  by (induction xs) auto









lemma distinct_slots: "distinct (map (\<lambda>i. k + int i) [0..<m])"
  by (simp add: distinct_map inj_on_def)





section \<open>Properties of the propagator\<close>

subsection \<open>A traversal that does not end\<close>

lemma bfsRounds_add:
  "bfsRounds E P (a + b) s = (case bfsRounds E P a s of Inl e \<Rightarrow> Inl e | Inr s' \<Rightarrow> bfsRounds E P b s')"
  by (induction a arbitrary: s) (auto split: sum.splits)

lemma keepsBusy_rounds:
  "keepsBusy E P k s \<Longrightarrow> i < k \<Longrightarrow> \<exists>s'. bfsRounds E P i s = Inr s' \<and> queue s' \<noteq> []"
proof (induction k arbitrary: s i)
  case 0
  then show ?case by simp
next
  case (Suc k)
  show ?case
  proof (cases i)
    case 0
    with Suc.prems show ?thesis by simp
  next
    case (Suc j)
    from Suc.prems(1) obtain s1 where r: "bfsRound E P s = Inr s1" and kb: "keepsBusy E P k s1"
      by (auto split: sum.splits)
    from Suc.prems(2) Suc have "j < k" by simp
    from Suc.IH[OF kb this] r Suc show ?thesis by simp
  qed
qed

lemma busy_forever:
  assumes per: "bfsRounds E P (k + p) s0 = bfsRounds E P k s0" and p: "0 < p"
    and busy: "keepsBusy E P (k + p) s0"
  shows "\<exists>s. bfsRounds E P i s0 = Inr s \<and> queue s \<noteq> []"
proof (induction i rule: less_induct)
  case (less i)
  show ?case
  proof (cases "i < k + p")
    case True
    with busy show ?thesis by (rule keepsBusy_rounds)
  next
    case False
    then obtain j where i: "i = (k + p) + j" by (metis le_add_diff_inverse not_less)
    have "bfsRounds E P i s0 = bfsRounds E P (k + j) s0"
      unfolding i by (simp only: bfsRounds_add[of E P "k + p" j] bfsRounds_add[of E P k j] per)
    moreover have "k + j < i" using i p by simp
    ultimately show ?thesis using less.IH by simp
  qed
qed

lemma bfsLoop_never_returns:
  assumes per: "bfsRounds E P (k + p) s0 = bfsRounds E P k s0" and p: "0 < p"
    and busy: "keepsBusy E P (k + p) s0"
  shows "bfsLoop E P s0 = None"
proof -
  define Q where "Q = (\<lambda>(x :: (env \<times> propagation) \<times> pstate) (y :: error + pstate).
     \<not> (fst (fst x) = E \<and> snd (fst x) = P \<and> (\<exists>i. bfsRounds E P i s0 = Inr (snd x))))"
  have inv: "Q ((E, P), s0) y" if ret: "bfsLoop E P s0 = Some y" for y
  proof (rule bfsLoop.raw_induct[where Pa = Q, OF _ ret])
    fix f :: "env \<Rightarrow> propagation \<Rightarrow> pstate \<Rightarrow> (error + pstate) option"
    fix E' P' s y'
    assume IH: "\<And>P s b y. f P s b = Some y \<Longrightarrow> Q ((P, s), b) y"
      and body: "(if queue s = [] then Some (Inr s)
                  else case bfsRound E' P' s of Inl e \<Rightarrow> Some (Inl e) | Inr s' \<Rightarrow> f E' P' s') = Some y'"
    show "Q ((E', P'), s) y'"
      unfolding Q_def
    proof
      assume a: "fst (fst ((E', P'), s)) = E \<and> snd (fst ((E', P'), s)) = P \<and>
                 (\<exists>i. bfsRounds E P i s0 = Inr (snd ((E', P'), s)))"
      then have EP: "E' = E" "P' = P" by simp_all
      from a obtain i where i: "bfsRounds E P i s0 = Inr s" by auto
      from busy_forever[OF per p busy, of i] i have q: "queue s \<noteq> []" by simp
      from busy_forever[OF per p busy, of "Suc i"] obtain s' where
        s': "bfsRounds E P (Suc i) s0 = Inr s'" by blast
      have "bfsRounds E P (i + Suc 0) s0 =
              (case bfsRounds E P i s0 of Inl e \<Rightarrow> Inl e | Inr t \<Rightarrow> bfsRounds E P (Suc 0) t)"
        by (rule bfsRounds_add)
      with i have "bfsRounds E P (Suc i) s0 = bfsRounds E P (Suc 0) s" by simp
      with s' have r: "bfsRound E P s = Inr s'" by (simp split: sum.splits)
      from body q r EP have "f E P s' = Some y'" by simp
      from IH[OF this] have "\<not> (\<exists>j. bfsRounds E P j s0 = Inr s')"
        unfolding Q_def by simp
      moreover have "\<exists>j. bfsRounds E P j s0 = Inr s'"
        by (rule exI[of _ "Suc i"]) (rule s')
      ultimately show False by blast
    qed
  qed
  have "\<exists>i. bfsRounds E P i s0 = Inr s0"
    by (rule exI[of _ 0]) simp
  then have "\<not> Q ((E, P), s0) y" for y unfolding Q_def by simp
  with inv show ?thesis by (cases "bfsLoop E P s0") auto
qed

lemma loop_periodic: "bfsRounds exEnv loopProp (10 + 3) loopStart = bfsRounds exEnv loopProp 10 loopStart"
  by code_simp

lemma loop_busy: "keepsBusy exEnv loopProp (10 + 3) loopStart"
  by code_simp

lemma loop_never_returns: "bfsLoop exEnv loopProp loopStart = None"
  using loop_periodic _ loop_busy by (rule bfsLoop_never_returns) simp

lemma propagate_never_returns:
  "propagateRestoredValuesBFS exEnv loopProp 1 9 (Ptr 100) (Ptr 101) loopFunc 200 = None"
  using loop_never_returns by (simp add: propagateRestoredValuesBFS_def loopStart_def)

subsection \<open>One request\<close>

lemma map_of_insort_key: "map_of (insort_key fst (k, v) m) = (map_of m)(k \<mapsto> v)"
  by (induction m) (auto simp: fun_upd_twist)

lemma getOrDefault_fst: "fst (getOrDefault k m) = (case map_of m k of None \<Rightarrow> {} | Some S \<Rightarrow> S)"
  by (auto simp: getOrDefault_def emplaceVisited_def Let_def map_of_insort_key split: option.splits)

lemma queue_modifyExistingPhi: "queue (modifyExistingPhi r s) = queue s"
  by (simp add: modifyExistingPhi_def Let_def split: prod.splits)

lemma queue_addNewPhi_stop: "queue (addNewPhi E r True s) = queue s"
  by (simp add: addNewPhi_def Let_def split: prod.splits)

lemma queue_updateInstructions_stop: "queue (updateInstructions r True s) = queue s"
  by (simp add: updateInstructions_def Let_def split: prod.splits)

lemma self_replaceOperands: "self (replaceOperandsInInst a b i) = self i"
  by (simp add: replaceOperandsInInst_def)

lemma definesVersion_replace:
  "definesVersion vv (map (replaceOperandsInInst a b) is) = definesVersion vv is"
  by (induction "is") (simp_all add: definesVersion_def self_replaceOperands)

lemma definesVersion_mono: "definesVersion vv is \<Longrightarrow> vv \<subseteq> vv' \<Longrightarrow> definesVersion vv' is"
  by (auto simp: definesVersion_def list_ex_iff)

lemma definesVersion_Cons: "definesVersion vv is \<Longrightarrow> definesVersion vv (i # is)"
  by (simp add: definesVersion_def)

lemma queue_addNewPhi_defines:
  "definesVersion (valueVersions r) (getBlock (pfunc s) (currBB r)) \<Longrightarrow>
     queue (addNewPhi E r b s) = queue s"
proof -
  assume d: "definesVersion (valueVersions r) (getBlock (pfunc s) (currBB r))"
  have "definesVersion (valueVersions r \<union> X) (i # map (replaceOperandsInInst a c) (getBlock (pfunc s) (currBB r)))"
    for X i a c
    using d definesVersion_mono[of "valueVersions r" _ "valueVersions r \<union> X"]
    by (intro definesVersion_Cons) (simp add: definesVersion_replace)
  then show ?thesis
    by (simp add: addNewPhi_def Let_def split: prod.splits)
qed

lemma queue_updateInstructions_defines:
  "definesVersion (valueVersions r) (getBlock (pfunc s) (currBB r)) \<Longrightarrow>
     queue (updateInstructions r b s) = queue s"
  by (simp add: updateInstructions_def Let_def definesVersion_replace split: prod.splits)

lemma succRequests_none: "\<forall>x\<in>set succs. x = currBB r \<Longrightarrow> succRequests r nv vv succs = []"
  by (auto simp: succRequests_def filter_empty_conv)

lemma pfunc_addNewPhi_succs:
  "getBBSuccessors (pfunc (addNewPhi E r b s)) (currBB r) = X \<Longrightarrow> \<forall>x\<in>set X. x = currBB r \<Longrightarrow>
   queue (addNewPhi E r b s) = queue s"
  by (auto simp: addNewPhi_def Let_def succRequests_none split: prod.splits)

lemma pfunc_updateInstructions_succs:
  "getBBSuccessors (pfunc (updateInstructions r b s)) (currBB r) = X \<Longrightarrow> \<forall>x\<in>set X. x = currBB r \<Longrightarrow>
   queue (updateInstructions r b s) = queue s"
  by (auto simp: updateInstructions_def Let_def succRequests_none split: prod.splits)

lemma definesVersion_Cons_iff:
  "definesVersion vv (i # is) = (Ptr (self i) \<in> vv \<or> definesVersion vv is)"
  by (simp add: definesVersion_def)

lemma succRequests_empty_iff:
  "succRequests r nv vv succs = [] \<longleftrightarrow> (\<forall>x\<in>set succs. x = currBB r)"
  by (auto simp: succRequests_def filter_empty_conv)

lemma updateInstructions_queue:
  "queue (updateInstructions r b s) =
     queue s @
     (if b \<or> definesVersion (valueVersions r) (getBlock (pfunc s) (currBB r)) then []
      else succRequests r (newVal r) (insert (newVal r) (valueVersions r))
             (getBBSuccessors (pfunc (updateInstructions r b s)) (currBB r)))"
  by (simp add: updateInstructions_def Let_def definesVersion_replace split: prod.splits)

lemma addNewPhi_queue:
  "queue (addNewPhi E r b s) =
     queue s @
     (if b \<or> definesVersion
                (valueVersions r \<union>
                 set (map (\<lambda>predBB. if predBB = prevBB r then newVal r else oldVal r)
                        (getBBPredecessors (pfunc s) (currBB r))))
                (mkInstr (pnext s) PHI
                   (map (\<lambda>predBB. if predBB = prevBB r then newVal r else oldVal r)
                      (getBBPredecessors (pfunc s) (currBB r))) (getType E (oldVal r))
                   \<lparr>incomingBlocks := getBBPredecessors (pfunc s) (currBB r)\<rparr>
                 # map (replaceOperandsInInst (oldVal r) (Ptr (pnext s)))
                     (getBlock (pfunc s) (currBB r)))
      then []
      else succRequests r (Ptr (pnext s))
             (insert (Ptr (pnext s))
                (valueVersions r \<union>
                 set (map (\<lambda>predBB. if predBB = prevBB r then newVal r else oldVal r)
                        (getBBPredecessors (pfunc s) (currBB r)))))
             (getBBSuccessors (pfunc (addNewPhi E r b s)) (currBB r)))"
  by (simp add: addNewPhi_def Let_def split: prod.splits)

lemma addNewPhi_queue_fresh:
  assumes "oldVal r \<in> valueVersions r" "newVal r \<in> valueVersions r"
    "Ptr (pnext s) \<notin> valueVersions r"
  shows "queue (addNewPhi E r b s) =
     queue s @
     (if b \<or> definesVersion (valueVersions r) (getBlock (pfunc s) (currBB r)) then []
      else succRequests r (Ptr (pnext s)) (insert (Ptr (pnext s)) (valueVersions r))
             (getBBSuccessors (pfunc (addNewPhi E r b s)) (currBB r)))"
proof -
  let ?inputs = "map (\<lambda>predBB. if predBB = prevBB r then newVal r else oldVal r)
                        (getBBPredecessors (pfunc s) (currBB r))"
  have vv: "valueVersions r \<union> set ?inputs = valueVersions r" using assms(1,2) by auto
  show ?thesis
    unfolding addNewPhi_queue vv
    using assms(3)
    by (simp add: definesVersion_Cons_iff definesVersion_replace mkInstr_def)
qed

text \<open>
  C2, as the code has it. For a request whose old and new value are among its value
  versions, and whose versions do not hold the next free handle, nothing is enqueued
  exactly when the block is the start block and has been visited, or the block has no
  successors, or the value versions of the request are those of the block's history, or
  the block is a join whose \<open>\<phi>\<close> already has an incoming from the previous block among
  the versions, or an instruction of the block is itself one of the versions, or the
  block, once rewritten, has no successor but itself. Nothing is said about the
  traversal coming to an end.
\<close>

theorem request_enqueues_nothing_iff:
  assumes "processUpdateRequest E P r s = Inr s'"
    and "oldVal r \<in> valueVersions r" and "newVal r \<in> valueVersions r"
    and "Ptr (pnext s) \<notin> valueVersions r"
  shows "queue s' = queue s \<longleftrightarrow>
         stopAtStart r s \<or> stopAtExit r s \<or> stopSameVersions r s \<or>
         (isJoin P r s = Inr True \<and>
            isPhiInstExistForIncomingBBForTrackedVal (valueVersions r)
              (getBlock (pfunc s) (currBB r)) (prevBB r)) \<or>
         definesVersion (valueVersions r) (getBlock (pfunc s) (currBB r)) \<or>
         (\<forall>succBB\<in>set (getBBSuccessors (pfunc s') (currBB r)). succBB = currBB r)"
proof -
  from assms(1) obtain j where j: "isJoin P r s = Inr j"
    by (auto simp: processUpdateRequest_def Let_def split: sum.splits)
  let ?stop = "stopAtStart r s \<or> stopAtExit r s \<or> stopSameVersions r s"
  let ?ex = "isPhiInstExistForIncomingBBForTrackedVal (valueVersions r)
              (getBlock (pfunc s) (currBB r)) (prevBB r)"
  consider (mod) "j" "?ex" "s' = modifyExistingPhi r s"
    | (new) "j" "\<not> ?ex" "s' = addNewPhi E r ?stop s"
    | (upd) "\<not> j" "s' = updateInstructions r ?stop s"
    using assms(1) j by (auto simp: processUpdateRequest_def Let_def split: if_splits bool.splits)
  then show ?thesis
  proof cases
    case mod
    then show ?thesis using j by (simp add: queue_modifyExistingPhi)
  next
    case new
    have "queue s' = queue s \<longleftrightarrow>
            ?stop \<or> definesVersion (valueVersions r) (getBlock (pfunc s) (currBB r)) \<or>
            (\<forall>succBB\<in>set (getBBSuccessors (pfunc s') (currBB r)). succBB = currBB r)"
      unfolding new(3) addNewPhi_queue_fresh[OF assms(2,3,4)]
      by (simp add: succRequests_empty_iff)
    with new j show ?thesis by auto
  next
    case upd
    have "queue s' = queue s \<longleftrightarrow>
            ?stop \<or> definesVersion (valueVersions r) (getBlock (pfunc s) (currBB r)) \<or>
            (\<forall>succBB\<in>set (getBBSuccessors (pfunc s') (currBB r)). succBB = currBB r)"
      unfolding upd(2) updateInstructions_queue
      by (simp add: succRequests_empty_iff)
    with upd j show ?thesis by auto
  qed
qed

lemma wellFormed_mono: "wellFormedRequest n q \<Longrightarrow> n \<le> m \<Longrightarrow> wellFormedRequest m q"
  by (fastforce simp: wellFormedRequest_def)

lemma wellFormed_fresh: "wellFormedRequest n q \<Longrightarrow> Ptr n \<notin> valueVersions q"
  by (fastforce simp: wellFormedRequest_def)

lemma requests_stay_well_formed:
  assumes p: "processUpdateRequest E P r s = Inr s'"
    and r: "wellFormedRequest (pnext s) r"
    and q: "\<forall>q\<in>set (queue s). wellFormedRequest (pnext s) q"
  shows "\<forall>q\<in>set (queue s'). wellFormedRequest (pnext s') q"
proof -
  from p obtain j where j: "isJoin P r s = Inr j"
    by (auto simp: processUpdateRequest_def Let_def split: sum.splits)
  let ?stop = "stopAtStart r s \<or> stopAtExit r s \<or> stopSameVersions r s"
  let ?ex = "isPhiInstExistForIncomingBBForTrackedVal (valueVersions r)
              (getBlock (pfunc s) (currBB r)) (prevBB r)"
  consider (mod) "s' = modifyExistingPhi r s"
    | (new) "s' = addNewPhi E r ?stop s"
    | (upd) "s' = updateInstructions r ?stop s"
    using p j by (auto simp: processUpdateRequest_def Let_def split: if_splits bool.splits)
  then show ?thesis
  proof cases
    case mod
    then have "queue s' = queue s" "pnext s' = pnext s"
      by (simp_all add: modifyExistingPhi_def Let_def split: prod.splits)
    with q show ?thesis by simp
  next
    case new
    have n: "pnext (addNewPhi E r b s) = pnext s + 1" for b
      by (simp add: addNewPhi_def Let_def split: prod.splits)
    have "wellFormedRequest (pnext s + 1) x"
      if "x \<in> set (succRequests r (Ptr (pnext s)) (insert (Ptr (pnext s)) (valueVersions r)) succs)"
      for x succs
      using that r by (fastforce simp: succRequests_def wellFormedRequest_def intro: less_SucI)
    with q r show ?thesis
      unfolding new n addNewPhi_queue_fresh[OF r[unfolded wellFormedRequest_def, THEN conjunct1]
          r[unfolded wellFormedRequest_def, THEN conjunct2, THEN conjunct1] wellFormed_fresh[OF r]]
      using wellFormed_mono[of "pnext s" _ "pnext s + 1"] by auto
  next
    case upd
    have n: "pnext (updateInstructions r b s) = pnext s" for b
      by (simp add: updateInstructions_def Let_def split: prod.splits)
    have "wellFormedRequest (pnext s) x"
      if "x \<in> set (succRequests r (newVal r) (insert (newVal r) (valueVersions r)) succs)"
      for x succs
      using that r by (fastforce simp: succRequests_def wellFormedRequest_def)
    with q show ?thesis unfolding upd n updateInstructions_queue by auto
  qed
qed


lemma zip_setIncoming:
  "zip (map (\<lambda>(v, b). g v b) (zip ops blks) @ drop (length blks) ops) blks =
     map (\<lambda>(v, b). (g v b, b)) (zip ops blks)"
proof (induction ops arbitrary: blks)
  case Nil
  then show ?case by simp
next
  case (Cons v ops)
  then show ?case by (cases blks) auto
qed

lemma incoming_setIncomingValueForBlock:
  "zip (operands (setIncomingValueForBlock phi BB V)) (incomingBlocks (setIncomingValueForBlock phi BB V)) =
     map (\<lambda>(v, b). (if b = BB then V else v, b)) (zip (operands phi) (incomingBlocks phi))"
  using zip_setIncoming[of "\<lambda>v b. if b = BB then V else v" "operands phi" "incomingBlocks phi"]
  by (simp add: setIncomingValueForBlock_def)

lemma needsRewrite_modifyPhi: "\<not> needsRewrite vv prev newV (modifyPhi vv prev newV phi)"
proof (cases "needsRewrite vv prev newV phi")
  case True
  then show ?thesis
    by (auto simp: modifyPhi_def needsRewrite_def incoming_setIncomingValueForBlock list_ex_iff)
next
  case False
  then show ?thesis by (simp add: modifyPhi_def)
qed

lemma isPhi_modifyPhi: "isPhi (modifyPhi vv prev newV phi) = isPhi phi"
  by (simp add: modifyPhi_def isPhi_def setIncomingValueForBlock_def)

lemma takeWhile_dropWhile_same: "takeWhile P (dropWhile P zs) = []"
  by (induction zs) auto

lemma takeWhile_append_dropWhile:
  "\<forall>x\<in>set xs. P x \<Longrightarrow> takeWhile P (xs @ dropWhile P zs) = xs"
  by (simp add: takeWhile_dropWhile_same)

lemma dropWhile_append_dropWhile:
  "\<forall>x\<in>set xs. P x \<Longrightarrow> dropWhile P (xs @ dropWhile P zs) = dropWhile P zs"
  by simp

lemma phis_after_modify:
  "phis (map (modifyPhi vv prev newV) (phis is) @ dropWhile isPhi is) =
     map (modifyPhi vv prev newV) (phis is)"
  unfolding phis_def
  by (rule takeWhile_append_dropWhile) (auto simp: isPhi_modifyPhi dest: set_takeWhileD)

lemma rest_after_modify:
  "dropWhile isPhi (map (modifyPhi vv prev newV) (phis is) @ dropWhile isPhi is) = dropWhile isPhi is"
  unfolding phis_def
  by (rule dropWhile_append_dropWhile) (auto simp: isPhi_modifyPhi dest: set_takeWhileD)

lemma incoming_modifyPhi:
  "list_all2 (\<lambda>(v, b) (v', b'). b' = b \<and> (b \<noteq> prev \<longrightarrow> v' = v))
     (zip (operands phi) (incomingBlocks phi))
     (zip (operands (modifyPhi vv prev newV phi)) (incomingBlocks (modifyPhi vv prev newV phi)))"
proof (cases "needsRewrite vv prev newV phi")
  case True
  then show ?thesis
    by (simp add: modifyPhi_def incoming_setIncomingValueForBlock list_all2_map2 list_all2_same
        split: prod.splits)
next
  case False
  then show ?thesis by (simp add: modifyPhi_def list_all2_same split: prod.splits)
qed

lemma rewritten_modifyPhi:
  "list_all2 (\<lambda>(v, b) (v', b'). b' = b \<and> (b = prev \<and> v \<in> vv \<longrightarrow> v' = newV))
     (zip (operands phi) (incomingBlocks phi))
     (zip (operands (modifyPhi vv prev newV phi)) (incomingBlocks (modifyPhi vv prev newV phi)))"
proof (cases "needsRewrite vv prev newV phi")
  case True
  then show ?thesis
    by (simp add: modifyPhi_def incoming_setIncomingValueForBlock list_all2_map2 list_all2_same
        split: prod.splits)
next
  case False
  then have "\<forall>(v, b)\<in>set (zip (operands phi) (incomingBlocks phi)). b = prev \<and> v \<in> vv \<longrightarrow> v = newV"
    by (auto simp: needsRewrite_def list_ex_iff)
  with False show ?thesis by (auto simp: modifyPhi_def list_all2_same)
qed

lemma modifyExistingPhi_block:
  assumes "map_of (blocks (pfunc s)) (currBB r) = Some is"
  shows "getBlock (pfunc (modifyExistingPhi r s)) (currBB r) =
           map (modifyPhi (valueVersions r) (prevBB r) (newVal r)) (phis is) @ dropWhile isPhi is"
  using assms
  by (simp add: modifyExistingPhi_def Let_def getBlock_updBlock split: prod.splits)
     (simp add: getBlock_def)

lemma addNewPhi_block:
  assumes "map_of (blocks (pfunc s)) (currBB r) = Some is"
  shows "getBlock (pfunc (addNewPhi E r b s)) (currBB r) =
           \<lparr>self = pnext s, opcode = PHI,
             operands = map (\<lambda>predBB. if predBB = prevBB r then newVal r else oldVal r)
                          (getBBPredecessors (pfunc s) (currBB r)),
             incomingBlocks = getBBPredecessors (pfunc s) (currBB r),
             calledFunction = None, resultTy = getType E (oldVal r)\<rparr>
           # map (replaceOperandsInInst (oldVal r) (Ptr (pnext s))) is"
  using assms
  by (simp add: addNewPhi_def Let_def getBlock_updBlock mkInstr_def split: prod.splits)
     (simp add: getBlock_def)

lemma header_processed:
  "processUpdateRequest exEnv headerProp headerRequest headerState = Inr headerAfter"
  by code_simp

lemma header_not_stopped:
  "\<not> stopAtStart headerRequest headerState \<and> \<not> stopAtExit headerRequest headerState \<and>
   \<not> stopSameVersions headerRequest headerState"
  by code_simp

lemma header_join:
  "isJoin headerProp headerRequest headerState = Inr True \<and>
   isPhiInstExistForIncomingBBForTrackedVal (valueVersions headerRequest)
     (getBlock (pfunc headerState) (currBB headerRequest)) (prevBB headerRequest)"
  by code_simp

lemma header_well_formed:
  "oldVal headerRequest \<in> valueVersions headerRequest \<and>
   newVal headerRequest \<in> valueVersions headerRequest \<and>
   Ptr (pnext headerState) \<notin> valueVersions headerRequest \<and>
   Ptr (pnext selfLoopState) \<notin> valueVersions headerRequest"
  by (simp add: headerRequest_def headerState_def selfLoopState_def)

lemma selfLoop_enqueues:
  "processUpdateRequest exEnv selfLoopProp headerRequest selfLoopState = Inr selfLoopAfter \<and>
   queue selfLoopAfter \<noteq> queue selfLoopState"
  by code_simp

theorem request_enqueues_nothing_iff_witness:
  "processUpdateRequest exEnv headerProp headerRequest headerState = Inr headerAfter \<and>
   oldVal headerRequest \<in> valueVersions headerRequest \<and>
   newVal headerRequest \<in> valueVersions headerRequest \<and>
   Ptr (pnext headerState) \<notin> valueVersions headerRequest \<and>
   isJoin headerProp headerRequest headerState = Inr True \<and>
   isPhiInstExistForIncomingBBForTrackedVal (valueVersions headerRequest)
     (getBlock (pfunc headerState) (currBB headerRequest)) (prevBB headerRequest) \<and>
   queue headerAfter = queue headerState \<and>
   processUpdateRequest exEnv selfLoopProp headerRequest selfLoopState = Inr selfLoopAfter \<and>
   Ptr (pnext selfLoopState) \<notin> valueVersions headerRequest \<and>
   queue selfLoopAfter \<noteq> queue selfLoopState \<and>
   \<not> stopAtStart headerRequest selfLoopState \<and> \<not> stopAtExit headerRequest selfLoopState \<and>
   \<not> stopSameVersions headerRequest selfLoopState \<and>
   \<not> definesVersion (valueVersions headerRequest)
        (getBlock (pfunc selfLoopState) (currBB headerRequest)) \<and>
   \<not> (\<forall>succBB\<in>set (getBBSuccessors (pfunc selfLoopAfter) (currBB headerRequest)).
         succBB = currBB headerRequest)"
proof -
  note w = header_well_formed
  note a = request_enqueues_nothing_iff[OF header_processed w[THEN conjunct1]
      w[THEN conjunct2, THEN conjunct1] w[THEN conjunct2, THEN conjunct2, THEN conjunct1]]
  note b = request_enqueues_nothing_iff[OF selfLoop_enqueues[THEN conjunct1] w[THEN conjunct1]
      w[THEN conjunct2, THEN conjunct1] w[THEN conjunct2, THEN conjunct2, THEN conjunct2]]
  from a header_join have 1: "queue headerAfter = queue headerState" by simp
  from b selfLoop_enqueues have 2:
    "\<not> stopAtStart headerRequest selfLoopState \<and> \<not> stopAtExit headerRequest selfLoopState \<and>
     \<not> stopSameVersions headerRequest selfLoopState \<and>
     \<not> definesVersion (valueVersions headerRequest)
          (getBlock (pfunc selfLoopState) (currBB headerRequest)) \<and>
     \<not> (\<forall>succBB\<in>set (getBBSuccessors (pfunc selfLoopAfter) (currBB headerRequest)).
           succBB = currBB headerRequest)"
    by blast
  from 1 2 header_processed header_join w selfLoop_enqueues show ?thesis by simp
qed

text \<open>
  C2, as the specification words it, fails twice. The traversal from the resume block of
  \<open>loopFunc\<close> never returns: the requests with the versions \<open>{100, 101}\<close> circle through
  the blocks \<open>3\<close> and \<open>4\<close>, whose histories hold the third version \<open>200\<close> and grow no
  more. And the request on the loop header of \<open>headerFunc\<close> meets none of the three stop
  conditions, the header has a successor, and still nothing is enqueued.
\<close>

theorem propagator_counterexample:
  "propagateRestoredValuesBFS exEnv loopProp 1 9 (Ptr 100) (Ptr 101) loopFunc 200 = None \<and>
   processUpdateRequest exEnv headerProp headerRequest headerState = Inr headerAfter \<and>
   queue headerAfter = queue headerState \<and>
   getBBSuccessors (pfunc headerAfter) 2 = [3] \<and>
   \<not> stopAtStart headerRequest headerState \<and> \<not> stopAtExit headerRequest headerState \<and>
   \<not> stopSameVersions headerRequest headerState"
proof -
  have "queue headerAfter = queue headerState" "getBBSuccessors (pfunc headerAfter) 2 = [3]"
    by code_simp+
  then show ?thesis
    using propagate_never_returns header_processed header_not_stopped by simp
qed

text \<open>
  C6, as the code has it. On a join block that is in the function: if some leading \<open>\<phi>\<close>
  has an incoming from the previous block whose value is among the versions, then
  afterwards every incoming of a leading \<open>\<phi>\<close> that came from the previous block with a
  value among the versions has the new value (so none is left to rewrite), the incomings
  from the other blocks and all other instructions are as before, no \<open>\<phi>\<close> is created
  and nothing is enqueued; otherwise the block starts with the new \<open>\<phi>\<close>,
  followed by the former instructions with the old value replaced by the new \<open>\<phi>\<close>, and
  unless the request is stopped (by one of the three stop conditions, or because an
  instruction of the block is itself one of the versions) a request with the new \<open>\<phi>\<close> as
  new value is enqueued for every successor other than the block itself.
\<close>

theorem join_block_processing:
  assumes j: "isJoin P r s = Inr True"
    and b: "map_of (blocks (pfunc s)) (currBB r) = Some is"
    and p: "processUpdateRequest E P r s = Inr s'"
  shows "if isPhiInstExistForIncomingBBForTrackedVal (valueVersions r) is (prevBB r)
         then queue s' = queue s \<and> pnext s' = pnext s \<and>
              \<not> list_ex (needsRewrite (valueVersions r) (prevBB r) (newVal r))
                   (phis (getBlock (pfunc s') (currBB r))) \<and>
              list_all2 (incomingRewritten (valueVersions r) (prevBB r) (newVal r)) (phis is)
                (phis (getBlock (pfunc s') (currBB r))) \<and>
              list_all2 (otherIncomingsKept (prevBB r)) (phis is)
                (phis (getBlock (pfunc s') (currBB r))) \<and>
              dropWhile isPhi (getBlock (pfunc s') (currBB r)) = dropWhile isPhi is
         else getBlock (pfunc s') (currBB r) =
                newJoinPhi E r s # map (replaceOperandsInInst (oldVal r) (Ptr (pnext s))) is \<and>
              queue s' =
                queue s @
                (if stopAtStart r s \<or> stopAtExit r s \<or> stopSameVersions r s \<or>
                    definesVersion (valueVersions r \<union> set (operands (newJoinPhi E r s)))
                      (getBlock (pfunc s') (currBB r))
                 then []
                 else map (\<lambda>succBB. \<lparr>startBB = startBB r, currBB = succBB, prevBB = currBB r,
                                       oldVal = oldVal r, newVal = Ptr (pnext s),
                                       valueVersions =
                                         insert (Ptr (pnext s))
                                           (valueVersions r \<union> set (operands (newJoinPhi E r s)))\<rparr>)
                        (filter (\<lambda>succBB. succBB \<noteq> currBB r)
                           (getBBSuccessors (pfunc s') (currBB r))))"
proof -
  have g: "getBlock (pfunc s) (currBB r) = is" using b by (simp add: getBlock_def)
  let ?stop = "stopAtStart r s \<or> stopAtExit r s \<or> stopSameVersions r s"
  show ?thesis
  proof (cases "isPhiInstExistForIncomingBBForTrackedVal (valueVersions r) is (prevBB r)")
    case True
    with p j g have s': "s' = modifyExistingPhi r s"
      by (simp add: processUpdateRequest_def Let_def)
    have blk: "getBlock (pfunc s') (currBB r) =
                 map (modifyPhi (valueVersions r) (prevBB r) (newVal r)) (phis is) @ dropWhile isPhi is"
      unfolding s' using b by (rule modifyExistingPhi_block)
    have 1: "queue s' = queue s" unfolding s' by (rule queue_modifyExistingPhi)
    have 2: "pnext s' = pnext s"
      unfolding s' by (simp add: modifyExistingPhi_def Let_def split: prod.splits)
    have 3: "\<not> list_ex (needsRewrite (valueVersions r) (prevBB r) (newVal r))
                   (phis (getBlock (pfunc s') (currBB r)))"
      by (simp add: blk phis_after_modify list_ex_iff needsRewrite_modifyPhi)
    have 4: "list_all2 (otherIncomingsKept (prevBB r)) (phis is) (phis (getBlock (pfunc s') (currBB r)))"
      using incoming_modifyPhi
      by (simp add: blk phis_after_modify list_all2_map2 otherIncomingsKept_def list_all2_same)
    have 5: "dropWhile isPhi (getBlock (pfunc s') (currBB r)) = dropWhile isPhi is"
      by (simp add: blk rest_after_modify)
    have 6: "list_all2 (incomingRewritten (valueVersions r) (prevBB r) (newVal r)) (phis is)
               (phis (getBlock (pfunc s') (currBB r)))"
      using rewritten_modifyPhi
      by (simp add: blk phis_after_modify list_all2_map2 incomingRewritten_def list_all2_same)
    from True 1 2 3 4 5 6 show ?thesis by simp
  next
    case False
    with p j g have s': "s' = addNewPhi E r ?stop s"
      by (simp add: processUpdateRequest_def Let_def)
    have blk: "getBlock (pfunc s') (currBB r) =
                 newJoinPhi E r s # map (replaceOperandsInInst (oldVal r) (Ptr (pnext s))) is"
      unfolding s' newJoinPhi_def using b by (rule addNewPhi_block)
    have q: "queue s' = queue s @
                (if ?stop \<or>
                    definesVersion (valueVersions r \<union> set (operands (newJoinPhi E r s)))
                      (getBlock (pfunc s') (currBB r))
                 then []
                 else succRequests r (Ptr (pnext s))
                        (insert (Ptr (pnext s)) (valueVersions r \<union> set (operands (newJoinPhi E r s))))
                        (getBBSuccessors (pfunc s') (currBB r)))"
      unfolding blk unfolding s'
      by (subst addNewPhi_queue) (simp add: newJoinPhi_def mkInstr_def g)
    from False blk q show ?thesis by (simp add: succRequests_def)
  qed
qed

lemma header_block: "map_of (blocks (pfunc headerState)) (currBB headerRequest) =
   Some [(mkInstr 80 PHI [Ptr 100, Ptr 81] Int32Ty)\<lparr>incomingBlocks := [1, 3]\<rparr>,
         mkInstr 55 Br [Ptr 3] VoidTy]"
  by code_simp

theorem join_block_processing_witness:
  "isJoin headerProp headerRequest headerState = Inr True \<and>
   processUpdateRequest exEnv headerProp headerRequest headerState = Inr headerAfter \<and>
   isPhiInstExistForIncomingBBForTrackedVal (valueVersions headerRequest)
     [(mkInstr 80 PHI [Ptr 100, Ptr 81] Int32Ty)\<lparr>incomingBlocks := [1, 3]\<rparr>,
      mkInstr 55 Br [Ptr 3] VoidTy] (prevBB headerRequest) \<and>
   queue headerAfter = queue headerState \<and> pnext headerAfter = pnext headerState \<and>
   list_all2 (incomingRewritten (valueVersions headerRequest) (prevBB headerRequest)
                (newVal headerRequest))
     (phis [(mkInstr 80 PHI [Ptr 100, Ptr 81] Int32Ty)\<lparr>incomingBlocks := [1, 3]\<rparr>,
            mkInstr 55 Br [Ptr 3] VoidTy])
     (phis (getBlock (pfunc headerAfter) (currBB headerRequest))) \<and>
   dropWhile isPhi (getBlock (pfunc headerAfter) (currBB headerRequest)) =
     dropWhile isPhi [(mkInstr 80 PHI [Ptr 100, Ptr 81] Int32Ty)\<lparr>incomingBlocks := [1, 3]\<rparr>,
                      mkInstr 55 Br [Ptr 3] VoidTy]"
proof -
  have j: "isJoin headerProp headerRequest headerState = Inr True" using header_join by simp
  have e: "isPhiInstExistForIncomingBBForTrackedVal (valueVersions headerRequest)
     [(mkInstr 80 PHI [Ptr 100, Ptr 81] Int32Ty)\<lparr>incomingBlocks := [1, 3]\<rparr>,
      mkInstr 55 Br [Ptr 3] VoidTy] (prevBB headerRequest)"
    by code_simp
  from join_block_processing[OF j header_block header_processed] e j header_processed
  show ?thesis by simp
qed

lemma selfLoop_processed:
  "processUpdateRequest exEnv selfLoopProp headerRequest selfLoopState = Inr selfLoopAfter"
  by code_simp

text \<open>
  C6, as the specification words it, fails: the single-block loop \<open>2\<close> of
  \<open>selfLoopFunc\<close> is a join without a \<open>\<phi>\<close> for the value, none of the stop conditions
  holds, the block has the successors \<open>2\<close> and \<open>3\<close>, and only \<open>3\<close> is enqueued.
\<close>

theorem join_enqueue_counterexample:
  "isJoin selfLoopProp headerRequest selfLoopState = Inr True \<and>
   \<not> isPhiInstExistForIncomingBBForTrackedVal (valueVersions headerRequest)
       (getBlock (pfunc selfLoopState) (currBB headerRequest)) (prevBB headerRequest) \<and>
   \<not> stopAtStart headerRequest selfLoopState \<and> \<not> stopAtExit headerRequest selfLoopState \<and>
   \<not> stopSameVersions headerRequest selfLoopState \<and>
   processUpdateRequest exEnv selfLoopProp headerRequest selfLoopState = Inr selfLoopAfter \<and>
   getBBSuccessors (pfunc selfLoopAfter) (currBB headerRequest) = [2, 3] \<and>
   map currBB (queue selfLoopAfter) = [3]"
proof -
  have "isJoin selfLoopProp headerRequest selfLoopState = Inr True"
    "\<not> isPhiInstExistForIncomingBBForTrackedVal (valueVersions headerRequest)
       (getBlock (pfunc selfLoopState) (currBB headerRequest)) (prevBB headerRequest)"
    "\<not> stopAtStart headerRequest selfLoopState" "\<not> stopAtExit headerRequest selfLoopState"
    "\<not> stopSameVersions headerRequest selfLoopState"
    "getBBSuccessors (pfunc selfLoopAfter) (currBB headerRequest) = [2, 3]"
    "map currBB (queue selfLoopAfter) = [3]"
    by code_simp+
  then show ?thesis using selfLoop_processed by simp
qed

section \<open>Properties of the pass on one function\<close>

subsection \<open>Blocks stay in the function\<close>

lemma hasBlock_updBlock: "hasBlock (updBlock b f F) b' = hasBlock F b'"
  by (simp add: hasBlock_def map_of_updBlock)

lemma map_of_insertAfter_other:
  "b' \<noteq> k \<Longrightarrow> map_of (insertAfter b (k, x) bs) b' = map_of bs b'"
  by (induction bs) auto

lemma map_of_insertAfter_new:
  "map_of bs k = None \<Longrightarrow> map_of (insertAfter b (k, x) bs) k = Some x"
  by (induction bs) (auto split: if_splits)

lemma map_of_insertAfter_some: "map_of bs b' \<noteq> None \<Longrightarrow> map_of (insertAfter b (k, x) bs) b' \<noteq> None"
  by (induction bs) (auto split: if_splits)

lemma map_of_insertAfter_key: "map_of (insertAfter b (k, x) bs) k \<noteq> None"
  by (induction bs) (auto split: if_splits)

lemma hasBlock_foldl_updBlock:
  "hasBlock (foldl (\<lambda>G s. updBlock s f G) F ss) b = hasBlock F b"
  by (induction ss arbitrary: F) (simp_all add: hasBlock_updBlock)

lemma hasBlock_insertAfter:
  "hasBlock (F\<lparr>blocks := insertAfter b (k, x) (blocks F)\<rparr>) b' = (b' = k \<or> hasBlock F b')"
proof (cases "b' = k")
  case True
  then show ?thesis using map_of_insertAfter_key[of b k x "blocks F"] by (simp add: hasBlock_def)
next
  case False
  then show ?thesis using map_of_insertAfter_other[of b' k b x "blocks F"] by (simp add: hasBlock_def)
qed

lemma hasBlock_SplitBlock:
  "SplitBlock F n BB = (F', new, n') \<Longrightarrow> hasBlock F' new \<and> (hasBlock F b \<longrightarrow> hasBlock F' b)"
  by (auto simp: SplitBlock_def Let_def hasBlock_foldl_updBlock hasBlock_insertAfter hasBlock_updBlock)

lemma hasBlock_SplitCriticalEdge:
  "SplitCriticalEdge F n BB k D = (F', new, n') \<Longrightarrow> hasBlock F' new \<and> (hasBlock F b \<longrightarrow> hasBlock F' b)"
  by (auto simp: SplitCriticalEdge_def Let_def hasBlock_insertAfter hasBlock_updBlock)

lemma hasBlock_splitEdgeWrapper:
  "splitEdgeWrapper E F n a b = Inr (Some (F', new, n')) \<Longrightarrow>
     hasBlock F' new \<and> (hasBlock F x \<longrightarrow> hasBlock F' x)"
  using hasBlock_SplitBlock[of F n a F' new n' x] hasBlock_SplitCriticalEdge[of F n a _ b F' new n' x]
  by (auto simp: splitEdgeWrapper_def SplitEdgeCustom_def split: if_splits)

lemma hasBlock_marshalValue:
  "marshalValue E c s r j k v F n = (F', n', p) \<Longrightarrow> hasBlock F' b = hasBlock F b"
  by (auto simp: marshalValue_eq hasBlock_updBlock)

lemma hasBlock_marshalValues:
  "marshalValues E c s r j k vs F n = (F', n', ps) \<Longrightarrow> hasBlock F' b = hasBlock F b"
proof (induction vs arbitrary: F n k F' n' ps)
  case Nil
  then show ?case by simp
next
  case (Cons v vs)
  obtain F1 n1 p where m1: "marshalValue E c s r j k v F n = (F1, n1, p)"
    by (cases "marshalValue E c s r j k v F n") auto
  with Cons.prems obtain ps' where
    m2: "marshalValues E c s r j (k + 1) vs F1 n1 = (F', n', ps')"
    by (auto split: prod.splits)
  from Cons.IH[OF m2] hasBlock_marshalValue[OF m1] show ?case by simp
qed

lemma hasBlock_processUpdateRequest:
  "processUpdateRequest E P r s = Inr s' \<Longrightarrow> hasBlock (pfunc s') b = hasBlock (pfunc s) b"
  by (auto simp: processUpdateRequest_def Let_def modifyExistingPhi_def addNewPhi_def
      updateInstructions_def hasBlock_updBlock split: sum.splits bool.splits if_splits prod.splits)

lemma hasBlock_bfsRound:
  "bfsRound E P s = Inr s' \<Longrightarrow> hasBlock (pfunc s') b = hasBlock (pfunc s) b"
  using hasBlock_processUpdateRequest[of E P _ "s\<lparr>queue := tl (queue s)\<rparr>" s' b]
  by (auto simp: bfsRound_def split: list.splits)

lemma hasBlock_bfsLoop:
  assumes "bfsLoop E P s = Some (Inr s')"
  shows "hasBlock (pfunc s') b = hasBlock (pfunc s) b"
proof -
  define Q where "Q = (\<lambda>(x :: (env \<times> propagation) \<times> pstate) (y :: error + pstate).
     \<forall>t. y = Inr t \<longrightarrow> hasBlock (pfunc t) b = hasBlock (pfunc (snd x)) b)"
  have "Q ((E, P), s) (Inr s')"
  proof (rule bfsLoop.raw_induct[where Pa = Q, OF _ assms])
    fix f :: "env \<Rightarrow> propagation \<Rightarrow> pstate \<Rightarrow> (error + pstate) option"
    fix E' P' s y'
    assume IH: "\<And>P s b y. f P s b = Some y \<Longrightarrow> Q ((P, s), b) y"
      and body: "(if queue s = [] then Some (Inr s)
                  else case bfsRound E' P' s of Inl e \<Rightarrow> Some (Inl e) | Inr s' \<Rightarrow> f E' P' s') = Some y'"
    show "Q ((E', P'), s) y'"
    proof (cases "queue s = []")
      case True
      with body show ?thesis by (auto simp: Q_def)
    next
      case False
      show ?thesis
      proof (cases "bfsRound E' P' s")
        case (Inl e)
        with body False show ?thesis by (auto simp: Q_def)
      next
        case (Inr s1)
        with body False have "f E' P' s1 = Some y'" by simp
        from IH[OF this] hasBlock_bfsRound[OF Inr] show ?thesis by (simp add: Q_def)
      qed
    qed
  qed
  then show ?thesis by (simp add: Q_def)
qed

lemma hasBlock_propagate:
  "propagateRestoredValuesBFS E P st pv ov nv F n = Some (Inr (F', n')) \<Longrightarrow>
     hasBlock F' b = hasBlock F b"
  using hasBlock_bfsLoop
  by (fastforce simp: propagateRestoredValuesBFS_def split: option.splits sum.splits)

lemma hasBlock_propagateAll:
  "propagateAll E P resume junction phiMap vs F n = Some (Inr (F', n')) \<Longrightarrow>
     hasBlock F' b = hasBlock F b"
proof (induction vs arbitrary: F n)
  case Nil
  then show ?case by simp
next
  case (Cons v vs)
  from Cons.prems obtain phi F1 n1 where
    1: "propagateRestoredValuesBFS E P resume junction v phi F n = Some (Inr (F1, n1))" and
    2: "propagateAll E P resume junction phiMap vs F1 n1 = Some (Inr (F', n'))"
    by (auto split: option.splits sum.splits prod.splits)
  from Cons.IH[OF 2] hasBlock_propagate[OF 1] show ?case by simp
qed

subsection \<open>The topology map and the restore controller\<close>

lemma topoInv_emplace:
  assumes "topoInv k tm" "checkpointBB t = k"
  shows "topoInv k (if map_of tm k = None then tm @ [(k, t)] else tm)"
proof (cases tm)
  case Nil
  with assms show ?thesis by (simp add: topoInv_def)
next
  case (Cons p ps)
  with assms have "fst p = k" by (simp add: topoInv_def)
  then have "map_of tm k \<noteq> None" using Cons by (cases p) auto
  with assms show ?thesis by auto
qed

lemma hasBlock_storeIsComplete:
  "storeIsComplete c s F n = (F', n') \<Longrightarrow> hasBlock F' b = hasBlock F b"
  by (auto simp: storeIsComplete_def hasBlock_updBlock)

lemma hasBlock_append: "hasBlock F b \<Longrightarrow> hasBlock (F\<lparr>blocks := blocks F @ xs\<rparr>) b"
  by (auto simp: hasBlock_def)

lemma installCheckpoint_inv:
  assumes "installCheckpoint E c lv tvs ckptBB save junction resume st = Some (Inr st')"
  shows "(hasBlock (ifunc st) b \<longrightarrow> hasBlock (ifunc st') b) \<and>
         (topoInv ckptBB (checkpointBBTopoMap st) \<longrightarrow> topoInv ckptBB (checkpointBBTopoMap st'))"
proof -
  let ?restore = "inext st"
  let ?F3 = "(ifunc st)\<lparr>blocks := blocks (ifunc st)
                              @ [(?restore, [mkInstr (?restore + 1) Br [Ptr junction] VoidTy])]\<rparr>"
  let ?topo = "\<lparr>checkpointBB = ckptBB, saveBB = save, restoreBB = ?restore,
                  junctionBB = junction, resumeBB = resume\<rparr>"
  obtain F4 n4 phiMap where
    m: "marshalValues E c save ?restore junction VALUES_START tvs ?F3 (?restore + 2) = (F4, n4, phiMap)"
    by (cases "marshalValues E c save ?restore junction VALUES_START tvs ?F3 (?restore + 2)") auto
  obtain F5 n5 where sc: "storeIsComplete c save F4 n4 = (F5, n5)"
    by (cases "storeIsComplete c save F4 n4") auto
  from assms m sc obtain P F6 n6 where
    pa: "propagateAll E P resume junction phiMap tvs F5 n5 = Some (Inr (F6, n6))" and
    f: "ifunc st' = F6" and
    t: "checkpointBBTopoMap st' =
          (if map_of (checkpointBBTopoMap st) ckptBB = None
           then checkpointBBTopoMap st @ [(ckptBB, ?topo)] else checkpointBBTopoMap st)"
    by (auto simp: installCheckpoint_def Let_def split: option.splits sum.splits prod.splits)
  have 1: "hasBlock (ifunc st) b \<longrightarrow> hasBlock (ifunc st') b"
    using hasBlock_propagateAll[OF pa, of b] hasBlock_storeIsComplete[OF sc, of b]
      hasBlock_marshalValues[OF m, of b] hasBlock_append[of "ifunc st" b] f
    by auto
  have 2: "topoInv ckptBB (checkpointBBTopoMap st) \<longrightarrow> topoInv ckptBB (checkpointBBTopoMap st')"
    unfolding t using topoInv_emplace[of ckptBB "checkpointBBTopoMap st" ?topo] by simp
  from 1 2 show ?thesis by simp
qed

lemma installOnSuccessors_inv:
  "installOnSuccessors E c lv tvs ckptBB succs st = Some (Inr st') \<Longrightarrow>
     (hasBlock (ifunc st) b \<longrightarrow> hasBlock (ifunc st') b) \<and>
     (topoInv ckptBB (checkpointBBTopoMap st) \<longrightarrow> topoInv ckptBB (checkpointBBTopoMap st'))"
proof (induction succs arbitrary: st)
  case Nil
  then show ?case by simp
next
  case (Cons successorBB rest)
  show ?case
  proof (cases "splitEdgeWrapper E (ifunc st) (inext st) ckptBB successorBB")
    case (Inl e)
    with Cons.prems show ?thesis by simp
  next
    case (Inr res)
    show ?thesis
    proof (cases res)
      case None
      with Inr Cons.prems have "installOnSuccessors E c lv tvs ckptBB rest st = Some (Inr st')"
        by simp
      from Cons.IH[OF this] show ?thesis .
    next
      case (Some triple)
      obtain F1 save n1 where tr: "triple = (F1, save, n1)" by (cases triple)
      note sp1 = hasBlock_splitEdgeWrapper[OF Inr[unfolded Some tr], of b]
      show ?thesis
      proof (cases "getBBSuccessors F1 save")
        case Nil
        with Inr Some tr Cons.prems show ?thesis by simp
      next
        case (Cons resume others)
        show ?thesis
        proof (cases "splitEdgeWrapper E F1 n1 save resume")
          case (Inl e)
          with Inr Some tr Cons Cons.prems show ?thesis by simp
        next
          case Inr2: (Inr res2)
          show ?thesis
          proof (cases res2)
            case None
            let ?st1 = "st\<lparr>ifunc := F1, inext := n1, inewBBs := insert save (inewBBs st)\<rparr>"
            from None Inr2 Inr Some tr Cons Cons.prems
            have "installOnSuccessors E c lv tvs ckptBB rest ?st1 = Some (Inr st')" by simp
            from Cons.IH[OF this] sp1 show ?thesis by simp
          next
            case Some2: (Some triple2)
            obtain F2 junction n2 where tr2: "triple2 = (F2, junction, n2)" by (cases triple2)
            note sp2 = hasBlock_splitEdgeWrapper[OF Inr2[unfolded Some2 tr2], of b]
            let ?st2 = "st\<lparr>ifunc := F2, inext := n2, inewBBs := insert save (inewBBs st)\<rparr>"
            from Some2 tr2 Inr2 Inr Some tr Cons Cons.prems obtain st3 where
              ic: "installCheckpoint E c lv tvs ckptBB save junction resume ?st2 = Some (Inr st3)" and
              r: "installOnSuccessors E c lv tvs ckptBB rest st3 = Some (Inr st')"
              by (auto split: option.splits sum.splits)
            from installCheckpoint_inv[OF ic, of b] Cons.IH[OF r] sp1 sp2 show ?thesis by simp
          qed
        qed
      qed
    qed
  qed
qed

lemma installCheckpoints_inv:
  assumes "installCheckpoints E c lv cp ptrSet st = Some (Inr st')"
    and "checkpointBBTopoMap st = []"
  shows "(hasBlock (ifunc st) b \<longrightarrow> hasBlock (ifunc st') b) \<and>
         length (checkpointBBTopoMap st') \<le> 1 \<and>
         (\<forall>p\<in>set (checkpointBBTopoMap st'). checkpointBB (snd p) = hd ptrSet)"
proof (cases ptrSet)
  case Nil
  with assms show ?thesis by (simp add: installCheckpoints_def)
next
  case (Cons ckptBB others)
  with assms(1) obtain tvs where
    "installOnSuccessors E c lv tvs ckptBB (getBBSuccessors (ifunc st) ckptBB) st = Some (Inr st')"
    by (auto simp: installCheckpoints_def split: option.splits)
  from installOnSuccessors_inv[OF this, of b] assms(2) Cons show ?thesis
    by (auto simp: topoInv_def)
qed

lemma getCheckpointIdBBMap_small:
  "length tm \<le> 1 \<Longrightarrow> getCheckpointIdBBMap tm = map (\<lambda>p. (1, snd p)) tm"
  by (cases tm) (auto simp: getCheckpointIdBBMap_def)

lemma hasBlock_addIdAndHeartbeat:
  "addIdAndHeartbeat c entry (F, n) = (F', n') \<Longrightarrow> hasBlock F' b = hasBlock F b"
  by (auto simp: addIdAndHeartbeat_def Let_def hasBlock_updBlock)

lemma hasBlock_fold_addId:
  "foldl (\<lambda>Fn entry. addIdAndHeartbeat c entry Fn) (F, n) idMap = (F', n') \<Longrightarrow>
     hasBlock F' b = hasBlock F b"
proof (induction idMap arbitrary: F n)
  case Nil
  then show ?case by simp
next
  case (Cons e es)
  obtain F1 n1 where a: "addIdAndHeartbeat c e (F, n) = (F1, n1)"
    by (cases "addIdAndHeartbeat c e (F, n)") auto
  with Cons.prems have "foldl (\<lambda>Fn entry. addIdAndHeartbeat c entry Fn) (F1, n1) es = (F', n')"
    by simp
  from Cons.IH[OF this] hasBlock_addIdAndHeartbeat[OF a] show ?case by simp
qed

lemma instrument_result:
  assumes run: "instrument E c lv cp ptrSet rc rcSucc F n = Some (Inr out)"
    and rc: "hasBlock F rc"
  shows "\<exists>pre k.
           getBlock (ofunc out) rc =
             pre @ [mkInstr k GetElementPtr [c, ConstantInt CKPT_ID] (PointerTy Int32Ty),
                    mkInstr (k + 1) Load [Ptr k] Int32Ty,
                    mkInstr (k + 2) Switch ([Ptr (k + 1), Ptr rcSucc] @ switchCases (oidMap out)) VoidTy]"
    and "length (oidMap out) \<le> 1"
    and "\<forall>p\<in>set (oidMap out). fst p = 1 \<and> checkpointBB (snd p) = hd ptrSet"
    and "ocontroller out = Some rc"
    and "oexit out = (if oidMap out = [] then SkipNoCheckpoints else Injected)"
proof -
  let ?st0 = "\<lparr>ifunc = F, inext = n, inewBBs = {rc}, checkpointBBTopoMap = [],
              saveLiveOut = Map.empty, restoreLiveOut = Map.empty, junctionLiveOut = Map.empty\<rparr>"
  from run obtain st where ic: "installCheckpoints E c lv cp ptrSet ?st0 = Some (Inr st)"
    by (auto simp: instrument_def split: option.splits sum.splits)
  let ?idMap = "getCheckpointIdBBMap (checkpointBBTopoMap st)"
  obtain F1 n1 where fa: "foldl (\<lambda>Fn entry. addIdAndHeartbeat c entry Fn) (ifunc st, inext st) ?idMap = (F1, n1)"
    by (cases "foldl (\<lambda>Fn entry. addIdAndHeartbeat c entry Fn) (ifunc st, inext st) ?idMap") auto
  from run ic fa have out: "out = \<lparr>ofunc = fst (installSwitch c rc rcSucc ?idMap F1 n1),
                         onext = snd (installSwitch c rc rcSucc ?idMap F1 n1),
                         oexit = (if length ?idMap = 0 then SkipNoCheckpoints else Injected),
                         omodified = True, ocontroller = Some rc, oidMap = ?idMap\<rparr>"
    by (auto simp: instrument_def Let_def split: prod.splits)
  note inv = installCheckpoints_inv[OF ic, of rc]
  from inv rc have h: "hasBlock (ifunc st) rc" and len: "length (checkpointBBTopoMap st) \<le> 1"
    and cb: "\<forall>p\<in>set (checkpointBBTopoMap st). checkpointBB (snd p) = hd ptrSet" by simp_all
  from hasBlock_fold_addId[OF fa, of rc] h have h1: "hasBlock F1 rc" by simp
  have id: "?idMap = map (\<lambda>p. (1, snd p)) (checkpointBBTopoMap st)"
    using len by (rule getCheckpointIdBBMap_small)
  show "length (oidMap out) \<le> 1" using out id len by simp
  show "\<forall>p\<in>set (oidMap out). fst p = 1 \<and> checkpointBB (snd p) = hd ptrSet"
    using out id cb by auto
  show "ocontroller out = Some rc" using out by simp
  show "oexit out = (if oidMap out = [] then SkipNoCheckpoints else Injected)" using out by simp
  have "getBlock (ofunc out) rc =
          butlast (getBlock F1 rc) @
            [mkInstr n1 GetElementPtr [c, ConstantInt CKPT_ID] (PointerTy Int32Ty),
             mkInstr (n1 + 1) Load [Ptr n1] Int32Ty,
             mkInstr (n1 + 2) Switch ([Ptr (n1 + 1), Ptr rcSucc] @ switchCases (oidMap out)) VoidTy]"
    using h1 out by (simp add: installSwitch_def getBlock_updBlock hasBlock_def)
  then show "\<exists>pre k.
           getBlock (ofunc out) rc =
             pre @ [mkInstr k GetElementPtr [c, ConstantInt CKPT_ID] (PointerTy Int32Ty),
                    mkInstr (k + 1) Load [Ptr k] Int32Ty,
                    mkInstr (k + 2) Switch ([Ptr (k + 1), Ptr rcSucc] @ switchCases (oidMap out)) VoidTy]"
    by blast
qed

subsection \<open>The successors of the entry block\<close>

lemma chooseBlocks_keys:
  "chooseBlocks m bs = Inr (cp, bs') \<Longrightarrow> map fst bs' = map fst bs"
proof (induction bs arbitrary: cp bs')
  case Nil
  then show ?case by simp
next
  case (Cons p bs)
  obtain b0 is0 where p: "p = (b0, is0)" by (cases p)
  from Cons.prems p obtain is1 cp1 bs1 where
    c: "chooseBlocks m bs = Inr (cp1, bs1)" and bs': "bs' = (b0, is1) # bs1"
    by (auto split: sum.splits prod.splits)
  from Cons.IH[OF c] bs' p show ?case by simp
qed

lemma hasBlock_keys: "hasBlock F b = (b \<in> set (map fst (blocks F)))"
  by (simp add: hasBlock_def map_of_eq_None_iff)

lemma hasBlock_select:
  assumes "selectCheckpointBBs E F tv = Inr (cp, F0)"
  shows "hasBlock F0 b = hasBlock F b"
proof -
  from assms obtain bs where
    c: "chooseBlocks (candidateFilter E F tv) (blocks F) = Inr (cp, bs)" and F0: "F0 = F\<lparr>blocks := bs\<rparr>"
    by (auto simp: selectCheckpointBBs_def chooseBBWithCheckpointDirective_def split: sum.splits)
  from chooseBlocks_keys[OF c] F0 show ?thesis by (simp add: hasBlock_keys)
qed

lemma eraseFirst_last:
  "xs \<noteq> [] \<Longrightarrow> \<not> P (last xs) \<Longrightarrow> eraseFirst P xs \<noteq> [] \<and> last (eraseFirst P xs) = last xs"
  by (induction xs) (auto split: if_splits)

lemma successors_not_directive: "successors i \<noteq> [] \<Longrightarrow> \<not> isDirective i"
  by (auto simp: successors_def isDirective_def split: opcode.splits)

lemma termSuccessors_eraseFirst:
  "termSuccessors xs \<noteq> [] \<Longrightarrow> termSuccessors (eraseFirst isDirective xs) = termSuccessors xs"
proof -
  assume a: "termSuccessors xs \<noteq> []"
  then have ne: "xs \<noteq> []" and s: "successors (last xs) \<noteq> []"
    by (auto simp: termSuccessors_def split: if_splits)
  from eraseFirst_last[of xs isDirective] ne successors_not_directive[OF s] show ?thesis
    by (simp add: termSuccessors_def)
qed

lemma select_entry_successors:
  assumes sel: "selectCheckpointBBs E F tv = Inr (cp, F0)"
    and e: "blocks F = (e, es) # others"
    and s: "getBBSuccessors F e \<noteq> []"
  shows "getBBSuccessors F0 e = getBBSuccessors F e"
proof -
  let ?m = "candidateFilter E F tv"
  from sel e obtain es' r bs1 where
    sc: "scanBlock ?m e es = Inr (es', r)" and F0: "blocks F0 = (e, es') # bs1"
    by (auto simp: selectCheckpointBBs_def chooseBBWithCheckpointDirective_def
        split: sum.splits prod.splits)
  from scanBlock_result[OF sc] have "es' = eraseFirst isDirective es \<or> es' = es" by auto
  moreover have "getBlock F e = es" using e by (simp add: getBlock_def)
  moreover have "getBlock F0 e = es'" using F0 by (simp add: getBlock_def)
  ultimately show ?thesis
    using s termSuccessors_eraseFirst[of es] by (auto simp: getBBSuccessors_def)
qed

lemma successors_replacePhiUsesWith: "successors (replacePhiUsesWith a b i) = successors i"
  by (simp add: replacePhiUsesWith_def successors_def)

lemma termSuccessors_map_replacePhi:
  "termSuccessors (map (replacePhiUsesWith a b) xs) = termSuccessors xs"
  by (simp add: termSuccessors_def last_map successors_replacePhiUsesWith)

lemma termSuccessors_fold_replacePhi:
  "termSuccessors (getBlock (foldl (\<lambda>G s. updBlock s (map (replacePhiUsesWith a b)) G) F ss) x) =
     termSuccessors (getBlock F x)"
  by (induction ss arbitrary: F) (simp_all add: getBlock_updBlock termSuccessors_map_replacePhi)

lemma SplitBlock_successors:
  assumes "SplitBlock F n BB = (F', new, n')" "\<not> hasBlock F n" "getBBSuccessors F BB \<noteq> []"
  shows "new = n \<and> getBBSuccessors F' new = getBBSuccessors F BB"
proof -
  let ?is = "getBlock F BB"
  from assms(3) have ne: "?is \<noteq> []" by (auto simp: getBBSuccessors_def termSuccessors_def)
  let ?F1 = "updBlock BB (\<lambda>is. butlast is @ [mkInstr (n + 1) Br [Ptr n] VoidTy]) F"
  let ?F2 = "?F1\<lparr>blocks := insertAfter BB (n, [last ?is]) (blocks ?F1)\<rparr>"
  from assms(1) ne have F': "F' = foldl (\<lambda>G s. updBlock s (map (replacePhiUsesWith BB n)) G) ?F2 (termSuccessors ?is)"
    and new: "new = n"
    by (auto simp: SplitBlock_def Let_def)
  have "map_of (blocks ?F1) n = None"
    using assms(2) by (auto simp: map_of_updBlock hasBlock_def)
  then have "getBlock ?F2 n = [last ?is]"
    by (simp add: getBlock_def map_of_insertAfter_new)
  then have "termSuccessors (getBlock F' n) = termSuccessors [last ?is]"
    unfolding F' by (simp add: termSuccessors_fold_replacePhi)
  also have "\<dots> = termSuccessors ?is" using ne by (simp add: termSuccessors_def)
  finally show ?thesis using new by (simp add: getBBSuccessors_def)
qed

lemma SplitCriticalEdge_successors:
  assumes "SplitCriticalEdge F n BB k D = (F', new, n')" "\<not> hasBlock F n"
  shows "new = n \<and> getBBSuccessors F' new = [D]"
proof -
  let ?F1 = "updBlock BB (\<lambda>is. butlast is @ map (setSuccessor k n) (if is = [] then [] else [last is])) F"
  let ?F2 = "?F1\<lparr>blocks := insertAfter BB (n, [mkInstr (n + 1) Br [Ptr D] VoidTy]) (blocks ?F1)\<rparr>"
  from assms(1) have F': "F' = updBlock D (map (setFirstIncomingBlock BB n)) ?F2" and new: "new = n"
    by (auto simp: SplitCriticalEdge_def Let_def)
  have "map_of (blocks ?F1) n = None"
    using assms(2) by (auto simp: map_of_updBlock hasBlock_def)
  then have g: "getBlock ?F2 n = [mkInstr (n + 1) Br [Ptr D] VoidTy]"
    by (simp add: getBlock_def map_of_insertAfter_new)
  have m: "map (setFirstIncomingBlock BB n) [mkInstr (n + 1) Br [Ptr D] VoidTy] =
             [mkInstr (n + 1) Br [Ptr D] VoidTy]"
    by (simp add: setFirstIncomingBlock_def mkInstr_def)
  have "getBlock F' n = getBlock ?F2 n \<or> getBlock F' n = map (setFirstIncomingBlock BB n) (getBlock ?F2 n)"
    unfolding F' getBlock_updBlock by (cases "n = D") auto
  with g m have "getBlock F' n = [mkInstr (n + 1) Br [Ptr D] VoidTy]" by auto
  then show ?thesis using new
    by (simp add: getBBSuccessors_def termSuccessors_def successors_def mkInstr_def)
qed

lemma entry_split_successor:
  assumes sp: "splitEdgeWrapper E F n e s0 = Inr (Some (F', rc, n'))"
    and fresh: "\<not> hasBlock F n"
    and succs: "getBBSuccessors F e = s0 # ss"
  shows "getSingleSuccessor F' rc = Some s0"
proof (cases "isCriticalEdge F e s0 \<and> \<not> splitFails E e s0")
  case True
  with sp succs have "SplitCriticalEdge F n e (GetSuccessorNumber (getBBSuccessors F e) s0) s0 = (F', rc, n')"
    by (simp add: splitEdgeWrapper_def SplitEdgeCustom_def)
  from SplitCriticalEdge_successors[OF this fresh] have "getBBSuccessors F' rc = [s0]" by blast
  then show ?thesis by (simp add: getSingleSuccessor_def)
next
  case False
  with sp succs have one: "length (getBBSuccessors F e) = 1" and sb: "SplitBlock F n e = (F', rc, n')"
    by (auto simp: splitEdgeWrapper_def SplitEdgeCustom_def split: if_splits)
  from one succs have ss: "ss = []" by simp
  from SplitBlock_successors[OF sb fresh] succs ss have "getBBSuccessors F' rc = [s0]" by auto
  then show ?thesis by (simp add: getSingleSuccessor_def)
qed

lemma reach_instrument:
  assumes run: "injectFunction E (Some tv) lv F n = Some (Inr out)"
    and ctl: "ocontroller out \<noteq> None"
  shows "\<exists>cm e es others cp F0 s0 ss F1 rc n1 rcSucc.
           getCkptMemSegmentPtr E (getFuncParams F) ''ckpt_mem'' = Some cm \<and>
           blocks F = (e, es) # others \<and> getBBSuccessors F e \<noteq> [] \<and>
           selectCheckpointBBs E F tv = Inr (cp, F0) \<and>
           getBBSuccessors F0 e = s0 # ss \<and>
           splitEdgeWrapper E F0 n e s0 = Inr (Some (F1, rc, n1)) \<and>
           getSingleSuccessor F1 rc = Some rcSucc \<and>
           instrument E (Ptr cm) lv cp (getCkptBBsInFunc F0 cp) rc rcSucc F1 n1 = Some (Inr out)"
proof -
  have nl: "ocontroller (leave G k x) = None" for G k x by (simp add: leave_def)
  from run ctl nl obtain cm where
    cm: "getCkptMemSegmentPtr E (getFuncParams F) ''ckpt_mem'' = Some cm"
    by (cases "getCkptMemSegmentPtr E (getFuncParams F) ''ckpt_mem''")
       (auto simp: injectFunction_def split: if_splits)
  from run have lk: "flinkage F \<noteq> LinkOnceODRLinkage"
    using ctl nl by (auto simp: injectFunction_def split: if_splits)
  from run cm lk have ct: "getNumContainedTypes (getType E (Ptr cm)) \<noteq> 0"
    by (auto simp: injectFunction_def split: if_splits)
  from run cm lk ct ctl nl obtain e es others where bl: "blocks F = (e, es) # others"
    by (cases "blocks F") (auto simp: injectFunction_def)
  from run cm lk ct bl ctl nl have su: "\<not> length (getBBSuccessors F e) < 1"
    by (auto simp: injectFunction_def split: if_splits)
  from run cm lk ct bl su obtain cp F0 where sel: "selectCheckpointBBs E F tv = Inr (cp, F0)"
    by (cases "selectCheckpointBBs E F tv") (auto simp: injectFunction_def)
  from run cm lk ct bl su sel ctl nl have len: "length cp \<noteq> 0"
    by (auto simp: injectFunction_def split: if_splits)
  from run cm lk ct bl su sel len obtain s0 ss where sc: "getBBSuccessors F0 e = s0 # ss"
    by (cases "getBBSuccessors F0 e") (auto simp: injectFunction_def)
  from run cm lk ct bl su sel len sc ctl nl obtain F1 rc n1 where
    sp: "splitEdgeWrapper E F0 n e s0 = Inr (Some (F1, rc, n1))"
    by (cases "splitEdgeWrapper E F0 n e s0")
       (auto simp: injectFunction_def split: option.splits)
  from run cm lk ct bl su sel len sc sp obtain rcSucc where
    gs: "getSingleSuccessor F1 rc = Some rcSucc"
    by (cases "getSingleSuccessor F1 rc") (auto simp: injectFunction_def)
  from run cm lk ct bl su sel len sc sp gs have
    "instrument E (Ptr cm) lv cp (getCkptBBsInFunc F0 cp) rc rcSucc F1 n1 = Some (Inr out)"
    by (simp add: injectFunction_def)
  with cm bl su sel sc sp gs show ?thesis by auto
qed

subsection \<open>The dispatcher\<close>

lemma exFunc_injected:
  "injectFunction exEnv (Some exTracked) (Some exLive) exFunc 100 = Some (Inr exInjected)"
  by code_simp

text \<open>
  C7. When the pass on a function returns with a restore controller \<open>rc\<close>, and the first
  handle handed to the pass was not a block of the function, the block \<open>rc\<close> ends with
  the element pointer to the slot \<^verbatim>\<open>CKPT_ID\<close> of \<^verbatim>\<open>ckpt_mem\<close>, the load through it, and a
  switch on the loaded value whose default target is the first successor the entry block
  had in the input, and whose cases send each identifier of the identifier map to the
  restore block of its checkpoint, one case for each installed checkpoint; the
  identifiers are \<open>1, 2, \<dots>\<close> in the order of the map.
\<close>

theorem dispatcher_switch:
  assumes run: "injectFunction E (Some tv) lv F n = Some (Inr out)"
    and ctl: "ocontroller out = Some rc"
    and fresh: "\<not> hasBlock F n"
  shows "\<exists>pre k cm.
           getCkptMemSegmentPtr E (getFuncParams F) ''ckpt_mem'' = Some cm \<and>
           getBlock (ofunc out) rc =
             pre @ [mkInstr k GetElementPtr [Ptr cm, ConstantInt CKPT_ID] (PointerTy Int32Ty),
                    mkInstr (k + 1) Load [Ptr k] Int32Ty,
                    mkInstr (k + 2) Switch
                      ([Ptr (k + 1), Ptr (hd (getBBSuccessors F (fst (hd (blocks F)))))] @
                       concat (map (\<lambda>(i, t). [ConstantInt (uint i), Ptr (restoreBB t)]) (oidMap out)))
                      VoidTy] \<and>
           map fst (oidMap out) = map of_nat [1..<Suc (length (oidMap out))]"
proof -
  from ctl have "ocontroller out \<noteq> None" by simp
  from reach_instrument[OF run this] obtain cm e es others cp F0 s0 ss F1 rc' n1 rcSucc where
    cm: "getCkptMemSegmentPtr E (getFuncParams F) ''ckpt_mem'' = Some cm" and
    bl: "blocks F = (e, es) # others" and su: "getBBSuccessors F e \<noteq> []" and
    sel: "selectCheckpointBBs E F tv = Inr (cp, F0)" and
    sc: "getBBSuccessors F0 e = s0 # ss" and
    sp: "splitEdgeWrapper E F0 n e s0 = Inr (Some (F1, rc', n1))" and
    gs: "getSingleSuccessor F1 rc' = Some rcSucc" and
    ins: "instrument E (Ptr cm) lv cp (getCkptBBsInFunc F0 cp) rc' rcSucc F1 n1 = Some (Inr out)"
    by blast
  from hasBlock_splitEdgeWrapper[OF sp] have h: "hasBlock F1 rc'" by simp
  note ir = instrument_result[OF ins h]
  from ir(4) ctl have rc: "rc' = rc" by simp
  from fresh hasBlock_select[OF sel] have "\<not> hasBlock F0 n" by simp
  from entry_split_successor[OF sp this sc] gs have "rcSucc = s0" by simp
  moreover from select_entry_successors[OF sel bl su] sc have "getBBSuccessors F e = s0 # ss" by simp
  ultimately have d: "rcSucc = hd (getBBSuccessors F (fst (hd (blocks F))))" using bl by simp
  have ids: "map fst (oidMap out) = map of_nat [1..<Suc (length (oidMap out))]"
  proof (cases "oidMap out")
    case Nil
    then show ?thesis by simp
  next
    case (Cons p ps)
    with ir(2) have "ps = []" by simp
    moreover from ir(3) Cons have "fst p = 1" by simp
    ultimately show ?thesis using Cons by simp
  qed
  from ir(1) obtain pre k where
    "getBlock (ofunc out) rc' =
       pre @ [mkInstr k GetElementPtr [Ptr cm, ConstantInt CKPT_ID] (PointerTy Int32Ty),
              mkInstr (k + 1) Load [Ptr k] Int32Ty,
              mkInstr (k + 2) Switch ([Ptr (k + 1), Ptr rcSucc] @ switchCases (oidMap out)) VoidTy]"
    by blast
  with cm ids show ?thesis unfolding rc d switchCases_def by blast
qed

theorem dispatcher_switch_witness:
  "injectFunction exEnv (Some exTracked) (Some exLive) exFunc 100 = Some (Inr exInjected) \<and>
   ocontroller exInjected = Some 100 \<and> \<not> hasBlock exFunc 100 \<and>
   (\<exists>pre k cm.
      getCkptMemSegmentPtr exEnv (getFuncParams exFunc) ''ckpt_mem'' = Some cm \<and>
      getBlock (ofunc exInjected) 100 =
        pre @ [mkInstr k GetElementPtr [Ptr cm, ConstantInt CKPT_ID] (PointerTy Int32Ty),
               mkInstr (k + 1) Load [Ptr k] Int32Ty,
               mkInstr (k + 2) Switch
                 ([Ptr (k + 1), Ptr (hd (getBBSuccessors exFunc (fst (hd (blocks exFunc)))))] @
                  concat (map (\<lambda>(i, t). [ConstantInt (uint i), Ptr (restoreBB t)]) (oidMap exInjected)))
                 VoidTy] \<and>
      map fst (oidMap exInjected) = map of_nat [1..<Suc (length (oidMap exInjected))])"
proof -
  have c: "ocontroller exInjected = Some 100" by (simp add: exInjected_def)
  have f: "\<not> hasBlock exFunc 100" by (simp add: hasBlock_def exFunc_def)
  from dispatcher_switch[OF exFunc_injected c f] exFunc_injected c f show ?thesis by blast
qed

lemma twoFunc_selection:
  "selectCheckpointBBs exEnv twoFunc twoTracked = Inr ([(14, [Ptr 2]), (12, [Ptr 2])], twoErased)"
  by code_simp

lemma twoFunc_injected:
  "injectFunction exEnv (Some twoTracked) (Some twoLive) twoFunc 100 = Some (Inr twoInjected)"
  by code_simp

text \<open>
  C9. The pass installs at most one checkpoint in a function: the identifier map has at
  most one entry, its checkpoint block is the first of the selected checkpoint blocks in
  the order of the set, and the switch of the restore controller has as many cases as the
  map has entries, so at most one.
\<close>

theorem at_most_one_checkpoint:
  assumes run: "injectFunction E (Some tv) lv F n = Some (Inr out)"
    and sel: "selectCheckpointBBs E F tv = Inr (cp, F0)"
  shows "length (oidMap out) \<le> 1 \<and>
         list_all (\<lambda>p. checkpointBB (snd p) = hd (getCkptBBsInFunc F0 cp)) (oidMap out) \<and>
         (case ocontroller out of
            None \<Rightarrow> oidMap out = []
          | Some rc \<Rightarrow>
              opcode (last (getBlock (ofunc out) rc)) = Switch \<and>
              length (caseDests (drop 2 (operands (last (getBlock (ofunc out) rc))))) =
                length (oidMap out))"
proof (cases "ocontroller out")
  case None
  have nl: "oidMap (leave G k x) = []" for G k x by (simp add: leave_def)
  have "oidMap out = []"
  proof (rule ccontr)
    assume ne: "oidMap out \<noteq> []"
    have "\<exists>c cp' ps rc s G k. instrument E c lv cp' ps rc s G k = Some (Inr out)"
      using run ne nl
      apply (auto simp: injectFunction_def split: if_splits option.splits list.splits sum.splits
          prod.splits)
      apply blast
      done
    then obtain c cp' ps rc s G k where "instrument E c lv cp' ps rc s G k = Some (Inr out)"
      by blast
    then have "ocontroller out = Some rc"
      by (auto simp: instrument_def Let_def split: option.splits sum.splits prod.splits)
    with None show False by simp
  qed
  with None show ?thesis by simp
next
  case (Some rc)
  then have "ocontroller out \<noteq> None" by simp
  from reach_instrument[OF run this] sel obtain cm e s0 F1 rc' n1 rcSucc where
    sp: "splitEdgeWrapper E F0 n e s0 = Inr (Some (F1, rc', n1))" and
    ins: "instrument E (Ptr cm) lv cp (getCkptBBsInFunc F0 cp) rc' rcSucc F1 n1 = Some (Inr out)"
    by auto
  from hasBlock_splitEdgeWrapper[OF sp] have h: "hasBlock F1 rc'" by simp
  note ir = instrument_result[OF ins h]
  from ir(4) Some have rc: "rc' = rc" by simp
  from ir(1) obtain pre k where
    b: "getBlock (ofunc out) rc =
       pre @ [mkInstr k GetElementPtr [Ptr cm, ConstantInt CKPT_ID] (PointerTy Int32Ty),
              mkInstr (k + 1) Load [Ptr k] Int32Ty,
              mkInstr (k + 2) Switch ([Ptr (k + 1), Ptr rcSucc] @ switchCases (oidMap out)) VoidTy]"
    unfolding rc by blast
  have cd: "length (caseDests (switchCases m)) = length m" for m
    by (induction m) (auto simp: switchCases_def)
  have 3: "opcode (last (getBlock (ofunc out) rc)) = Switch \<and>
           length (caseDests (drop 2 (operands (last (getBlock (ofunc out) rc))))) = length (oidMap out)"
    unfolding b by (simp add: mkInstr_def cd)
  from ir(2) ir(3) 3 Some show ?thesis by (simp add: list_all_iff)
qed

theorem at_most_one_checkpoint_witness:
  "injectFunction exEnv (Some twoTracked) (Some twoLive) twoFunc 100 = Some (Inr twoInjected) \<and>
   selectCheckpointBBs exEnv twoFunc twoTracked = Inr ([(14, [Ptr 2]), (12, [Ptr 2])], twoErased) \<and>
   getCkptBBsInFunc twoErased [(14, [Ptr 2]), (12, [Ptr 2])] = [12, 14] \<and>
   length (oidMap twoInjected) \<le> 1 \<and>
   list_all (\<lambda>p. checkpointBB (snd p) = 12) (oidMap twoInjected) \<and>
   opcode (last (getBlock (ofunc twoInjected) 100)) = Switch \<and>
   length (caseDests (drop 2 (operands (last (getBlock (ofunc twoInjected) 100))))) =
     length (oidMap twoInjected)"
proof -
  have c: "ocontroller twoInjected = Some 100" by (simp add: twoInjected_def)
  have p: "getCkptBBsInFunc twoErased [(14, [Ptr 2]), (12, [Ptr 2])] = [12, 14]"
    by (simp add: getCkptBBsInFunc_def twoErased_def)
  from at_most_one_checkpoint[OF twoFunc_injected twoFunc_selection] twoFunc_injected
    twoFunc_selection c p
  show ?thesis by simp
qed

subsection \<open>Functions the pass gives up\<close>

text \<open>
  A function the pass leaves before the entry edge is split is the input: the directive
  is erased only for a block that becomes a checkpoint.
\<close>

lemma scanBlock_none: "scanBlock m b is = Inr (is', None) \<Longrightarrow> is' = is"
proof (induction "is" arbitrary: is')
  case Nil
  then show ?case by simp
next
  case (Cons i "is")
  from Cons.prems obtain is1 where s: "scanBlock m b is = Inr (is1, None)" and i: "is' = i # is1"
    by (auto split: if_splits option.splits sum.splits prod.splits)
  from Cons.IH[OF s] i show ?case by simp
qed

lemma chooseBlocks_none: "chooseBlocks m bs = Inr ([], bs') \<Longrightarrow> bs' = bs"
proof (induction bs arbitrary: bs')
  case Nil
  then show ?case by simp
next
  case (Cons p bs)
  obtain b0 is0 where p: "p = (b0, is0)" by (cases p)
  from Cons.prems p obtain is1 bs1 where
    s: "scanBlock m b0 is0 = Inr (is1, None)" and
    c: "chooseBlocks m bs = Inr ([], bs1)" and bs': "bs' = (b0, is1) # bs1"
    by (auto split: sum.splits prod.splits option.splits)
  from scanBlock_none[OF s] Cons.IH[OF c] bs' p show ?case by simp
qed

lemma select_none: "selectCheckpointBBs E F tv = Inr ([], F0) \<Longrightarrow> F0 = F"
  by (auto simp: selectCheckpointBBs_def chooseBBWithCheckpointDirective_def
      split: sum.splits prod.splits dest: chooseBlocks_none)

lemma instrument_exit:
  "instrument E c lv cp ps rc s G k = Some (Inr out) \<Longrightarrow>
     oexit out = SkipNoCheckpoints \<or> oexit out = Injected"
  by (auto simp: instrument_def Let_def split: option.splits sum.splits prod.splits if_splits)

lemma early_skip_unchanged:
  assumes run: "injectFunction E tvo lv F n = Some (Inr out)"
    and ex: "oexit out \<in> {SkipLinkage, SkipNoTrackedVals, SkipNoCkptMem, SkipOneBlock, SkipNoCandidates}"
  shows "ofunc out = F \<and> onext out = n \<and> \<not> omodified out"
proof -
  have l: "ofunc (leave G k x) = G \<and> onext (leave G k x) = k \<and> \<not> omodified (leave G k x) \<and>
           oexit (leave G k x) = x" for G k x
    by (simp add: leave_def)
  from run ex show ?thesis
    by (auto simp: injectFunction_def l split: if_splits option.splits list.splits sum.splits
        prod.splits dest: select_none instrument_exit)
qed

lemma splitEdgeWrapper_not_null: "splitEdgeWrapper E F n a b \<noteq> Inr None"
  by (auto simp: splitEdgeWrapper_def SplitEdgeCustom_def split: sum.splits option.splits)

lemma installCheckpoint_topo:
  "installCheckpoint E c lv tvs k save junction resume st = Some (Inr st') \<Longrightarrow>
     checkpointBBTopoMap st' \<noteq> []"
  by (auto simp: installCheckpoint_def Let_def split: option.splits sum.splits prod.splits if_splits)

lemma installOnSuccessors_topo:
  "installOnSuccessors E c lv tvs k succs st = Some (Inr st') \<Longrightarrow>
     succs \<noteq> [] \<or> checkpointBBTopoMap st \<noteq> [] \<Longrightarrow> checkpointBBTopoMap st' \<noteq> []"
proof (induction succs arbitrary: st)
  case Nil
  then show ?case by simp
next
  case (Cons successorBB rest)
  from Cons.prems(1) splitEdgeWrapper_not_null[of E "ifunc st" "inext st" k successorBB]
  obtain F1 save n1 where
    s1: "splitEdgeWrapper E (ifunc st) (inext st) k successorBB = Inr (Some (F1, save, n1))"
    by (cases "splitEdgeWrapper E (ifunc st) (inext st) k successorBB") (auto split: option.splits)
  from Cons.prems(1) s1 obtain resume others where su: "getBBSuccessors F1 save = resume # others"
    by (cases "getBBSuccessors F1 save") auto
  from Cons.prems(1) s1 su splitEdgeWrapper_not_null[of E F1 n1 save resume]
  obtain F2 junction n2 where
    s2: "splitEdgeWrapper E F1 n1 save resume = Inr (Some (F2, junction, n2))"
    by (cases "splitEdgeWrapper E F1 n1 save resume") (auto split: option.splits)
  let ?st2 = "st\<lparr>ifunc := F2, inext := n2, inewBBs := insert save (inewBBs st)\<rparr>"
  from Cons.prems(1) s1 su s2 obtain st3 where
    ic: "installCheckpoint E c lv tvs k save junction resume ?st2 = Some (Inr st3)" and
    r: "installOnSuccessors E c lv tvs k rest st3 = Some (Inr st')"
    by (auto split: option.splits sum.splits)
  from installCheckpoint_topo[OF ic] Cons.IH[OF r] show ?case by simp
qed

lemma assignIds_acc: "acc \<noteq> [] \<Longrightarrow> assignIds c tm acc \<noteq> []"
  by (induction c tm acc rule: assignIds.induct) auto

lemma getCheckpointIdBBMap_nonempty: "tm \<noteq> [] \<Longrightarrow> getCheckpointIdBBMap tm \<noteq> []"
  by (cases tm) (auto simp: getCheckpointIdBBMap_def assignIds_acc)

lemma chooseBlocks_cp:
  "chooseBlocks m bs = Inr (cp, bs') \<Longrightarrow> (k, tv) \<in> set cp \<Longrightarrow>
     k \<in> set (map fst bs) \<and> m k = Some tv"
proof (induction bs arbitrary: cp bs')
  case Nil
  then show ?case by simp
next
  case (Cons p bs)
  obtain b0 is0 where p: "p = (b0, is0)" by (cases p)
  from Cons.prems(1) p obtain is1 r cp1 bs1 where
    s: "scanBlock m b0 is0 = Inr (is1, r)" and
    c: "chooseBlocks m bs = Inr (cp1, bs1)" and
    cp: "cp = (case r of None \<Rightarrow> cp1 | Some tv \<Rightarrow> (b0, tv) # filter (\<lambda>(k, w). k \<noteq> b0) cp1)"
    by (auto split: sum.splits prod.splits)
  from scanBlock_result[OF s] have r: "r = None \<or> r = m b0" by auto
  show ?case
  proof (cases "(k, tv) \<in> set cp1")
    case True
    from Cons.IH[OF c True] p show ?thesis by simp
  next
    case False
    with Cons.prems(2) cp obtain tv0 where "r = Some tv0" "(k, tv) = (b0, tv0)"
      by (cases r) auto
    with r p show ?thesis by auto
  qed
qed

lemma candidate_one_successor:
  "candidateFilter E F tvm k = Some tv \<Longrightarrow> length (getBBSuccessors F k) = 1"
  by (auto simp: candidateFilter_def removeBBsWithNoTrackedVals_def removeNestedPtrTrackedVals_def
      getBBsWithOneSuccessor_def split: option.splits if_splits)

lemma chooseBlocks_lookup:
  "chooseBlocks m bs = Inr (cp, bs') \<Longrightarrow>
     map_of bs' b = (case map_of bs b of None \<Rightarrow> None
                     | Some is \<Rightarrow> (case scanBlock m b is of Inl e \<Rightarrow> None | Inr (is', r) \<Rightarrow> Some is'))"
proof (induction bs arbitrary: cp bs')
  case Nil
  then show ?case by simp
next
  case (Cons p bs)
  obtain b0 is0 where p: "p = (b0, is0)" by (cases p)
  from Cons.prems(1) p obtain is1 r cp1 bs1 where
    s: "scanBlock m b0 is0 = Inr (is1, r)" and
    c: "chooseBlocks m bs = Inr (cp1, bs1)" and bs': "bs' = (b0, is1) # bs1"
    by (auto split: sum.splits prod.splits)
  from Cons.IH[OF c] s bs' p show ?case by simp
qed

lemma select_successors:
  assumes sel: "selectCheckpointBBs E F tvm = Inr (cp, F0)"
    and s: "getBBSuccessors F b \<noteq> []"
  shows "getBBSuccessors F0 b = getBBSuccessors F b"
proof -
  let ?m = "candidateFilter E F tvm"
  from sel obtain bs where
    c: "chooseBlocks ?m (blocks F) = Inr (cp, bs)" and F0: "F0 = F\<lparr>blocks := bs\<rparr>"
    by (auto simp: selectCheckpointBBs_def chooseBBWithCheckpointDirective_def split: sum.splits)
  from s obtain "is" where m: "map_of (blocks F) b = Some is" and g: "getBlock F b = is"
    by (cases "map_of (blocks F) b")
       (auto simp: getBBSuccessors_def getBlock_def termSuccessors_def)
  have hb: "hasBlock F0 b" using hasBlock_select[OF sel, of b] m by (simp add: hasBlock_def)
  from chooseBlocks_lookup[OF c, of b] m hb F0 obtain is' r where
    sc: "scanBlock ?m b is = Inr (is', r)" and m': "map_of bs b = Some is'"
    by (auto simp: hasBlock_def split: sum.splits)
  from scanBlock_result[OF sc] have "is' = eraseFirst isDirective is \<or> is' = is" by auto
  moreover have "getBlock F0 b = is'" using m' F0 by (simp add: getBlock_def)
  ultimately show ?thesis
    using s g termSuccessors_eraseFirst[of "is"] by (auto simp: getBBSuccessors_def)
qed

lemma successors_setFirstIncomingBlock: "successors (setFirstIncomingBlock a b i) = successors i"
  by (simp add: setFirstIncomingBlock_def successors_def)

lemma termSuccessors_map_setFirst:
  "termSuccessors (map (setFirstIncomingBlock a b) xs) = termSuccessors xs"
  by (simp add: termSuccessors_def last_map successors_setFirstIncomingBlock)

lemma SplitBlock_other_successors:
  assumes "SplitBlock F n BB = (F', new, n')" "k \<noteq> n" "k \<noteq> BB"
  shows "getBBSuccessors F' k = getBBSuccessors F k"
proof -
  let ?is = "getBlock F BB"
  let ?F1 = "updBlock BB (\<lambda>is. butlast is @ [mkInstr (n + 1) Br [Ptr n] VoidTy]) F"
  let ?F2 = "?F1\<lparr>blocks := insertAfter BB (n, if ?is = [] then [] else [last ?is]) (blocks ?F1)\<rparr>"
  from assms(1) have F': "F' = foldl (\<lambda>G s. updBlock s (map (replacePhiUsesWith BB n)) G) ?F2 (termSuccessors ?is)"
    by (auto simp: SplitBlock_def Let_def)
  have "getBlock ?F2 k = getBlock F k"
    using assms(2,3) by (simp add: getBlock_def map_of_insertAfter_other map_of_updBlock)
  then show ?thesis unfolding F' getBBSuccessors_def by (simp add: termSuccessors_fold_replacePhi)
qed

lemma SplitBlock_self_successors:
  assumes "SplitBlock F n BB = (F', new, n')" "BB \<noteq> n" "hasBlock F BB"
  shows "getBBSuccessors F' BB = [n]"
proof -
  let ?is = "getBlock F BB"
  let ?F1 = "updBlock BB (\<lambda>is. butlast is @ [mkInstr (n + 1) Br [Ptr n] VoidTy]) F"
  let ?F2 = "?F1\<lparr>blocks := insertAfter BB (n, if ?is = [] then [] else [last ?is]) (blocks ?F1)\<rparr>"
  from assms(1) have F': "F' = foldl (\<lambda>G s. updBlock s (map (replacePhiUsesWith BB n)) G) ?F2 (termSuccessors ?is)"
    by (auto simp: SplitBlock_def Let_def)
  have "getBlock ?F2 BB = butlast ?is @ [mkInstr (n + 1) Br [Ptr n] VoidTy]"
    using assms(2,3) by (auto simp: getBlock_def map_of_insertAfter_other map_of_updBlock hasBlock_def)
  then have "termSuccessors (getBlock F' BB) = termSuccessors (butlast ?is @ [mkInstr (n + 1) Br [Ptr n] VoidTy])"
    unfolding F' by (simp add: termSuccessors_fold_replacePhi)
  then show ?thesis by (simp add: getBBSuccessors_def termSuccessors_def successors_def mkInstr_def)
qed

lemma SplitCriticalEdge_other_successors:
  assumes "SplitCriticalEdge F n BB i D = (F', new, n')" "k \<noteq> n" "k \<noteq> BB"
  shows "getBBSuccessors F' k = getBBSuccessors F k"
proof -
  let ?F1 = "updBlock BB (\<lambda>is. butlast is @ map (setSuccessor i n) (if is = [] then [] else [last is])) F"
  let ?F2 = "?F1\<lparr>blocks := insertAfter BB (n, [mkInstr (n + 1) Br [Ptr D] VoidTy]) (blocks ?F1)\<rparr>"
  from assms(1) have F': "F' = updBlock D (map (setFirstIncomingBlock BB n)) ?F2"
    by (auto simp: SplitCriticalEdge_def Let_def)
  have "getBlock ?F2 k = getBlock F k"
    using assms(2,3) by (simp add: getBlock_def map_of_insertAfter_other map_of_updBlock)
  then show ?thesis unfolding F' getBBSuccessors_def
    by (cases "k = D") (simp_all add: getBlock_updBlock termSuccessors_map_setFirst)
qed

lemma split_keeps_one_successor:
  assumes sp: "splitEdgeWrapper E F n e s0 = Inr (Some (F', rc, n'))"
    and k: "hasBlock F k" "k \<noteq> n" "length (getBBSuccessors F k) = 1"
  shows "length (getBBSuccessors F' k) = 1"
proof (cases "isCriticalEdge F e s0 \<and> \<not> splitFails E e s0")
  case True
  then have "k \<noteq> e" using k(3) by (auto simp: isCriticalEdge_def)
  moreover from sp True
  have "SplitCriticalEdge F n e (GetSuccessorNumber (getBBSuccessors F e) s0) s0 = (F', rc, n')"
    by (auto simp: splitEdgeWrapper_def SplitEdgeCustom_def split: if_splits)
  ultimately show ?thesis using SplitCriticalEdge_other_successors k by simp
next
  case False
  with sp have sb: "SplitBlock F n e = (F', rc, n')"
    by (auto simp: splitEdgeWrapper_def SplitEdgeCustom_def split: if_splits)
  show ?thesis
  proof (cases "k = e")
    case True
    with SplitBlock_self_successors[OF sb] k show ?thesis by simp
  next
    case False
    with SplitBlock_other_successors[OF sb k(2)] k show ?thesis by simp
  qed
qed

lemma select_checkpoint_blocks:
  assumes sel: "selectCheckpointBBs E F tvm = Inr (cp, F0)" and ne: "cp \<noteq> []"
  shows "getCkptBBsInFunc F0 cp \<noteq> []"
    and "\<And>k. k \<in> set (getCkptBBsInFunc F0 cp) \<Longrightarrow>
           hasBlock F0 k \<and> length (getBBSuccessors F0 k) = 1 \<and>
           (\<exists>tv. map_of cp k = Some tv \<and> candidateFilter E F tvm k = Some tv)"
proof -
  let ?m = "candidateFilter E F tvm"
  from sel obtain bs where
    c: "chooseBlocks ?m (blocks F) = Inr (cp, bs)" and F0: "F0 = F\<lparr>blocks := bs\<rparr>"
    by (auto simp: selectCheckpointBBs_def chooseBBWithCheckpointDirective_def split: sum.splits)
  from ne obtain k0 tv0 where hd: "(k0, tv0) \<in> set cp" by (cases cp) auto
  from chooseBlocks_cp[OF c hd] chooseBlocks_keys[OF c] F0
  have "k0 \<in> set (map fst (blocks F0))" by simp
  moreover from hd have "map_of cp k0 \<noteq> None"
    by (metis domIff dom_map_of_conv_image_fst fst_conv image_eqI)
  ultimately have "k0 \<in> set (getCkptBBsInFunc F0 cp)" by (simp add: getCkptBBsInFunc_def)
  then show "getCkptBBsInFunc F0 cp \<noteq> []" by auto
next
  fix k assume "k \<in> set (getCkptBBsInFunc F0 cp)"
  then have hb: "hasBlock F0 k" and "map_of cp k \<noteq> None"
    by (auto simp: getCkptBBsInFunc_def hasBlock_keys)
  then obtain tv where m: "map_of cp k = Some tv" by auto
  let ?m = "candidateFilter E F tvm"
  from sel obtain bs where
    c: "chooseBlocks ?m (blocks F) = Inr (cp, bs)"
    by (auto simp: selectCheckpointBBs_def chooseBBWithCheckpointDirective_def split: sum.splits)
  from chooseBlocks_cp[OF c map_of_SomeD[OF m]] have cf: "?m k = Some tv" by simp
  from candidate_one_successor[OF cf] have one: "length (getBBSuccessors F k) = 1" .
  then have "getBBSuccessors F k \<noteq> []" by auto
  from select_successors[OF sel this] one have "length (getBBSuccessors F0 k) = 1" by simp
  with hb m cf show "hasBlock F0 k \<and> length (getBBSuccessors F0 k) = 1 \<and>
           (\<exists>tv. map_of cp k = Some tv \<and> candidateFilter E F tvm k = Some tv)" by simp
qed

lemma instrument_injected:
  assumes run: "instrument E c lv cp ptrSet rc rcSucc F n = Some (Inr out)"
    and ne: "ptrSet \<noteq> []" and su: "getBBSuccessors F (hd ptrSet) \<noteq> []"
  shows "oidMap out \<noteq> []"
proof -
  let ?st0 = "\<lparr>ifunc = F, inext = n, inewBBs = {rc}, checkpointBBTopoMap = [],
              saveLiveOut = Map.empty, restoreLiveOut = Map.empty, junctionLiveOut = Map.empty\<rparr>"
  from run obtain st where ic: "installCheckpoints E c lv cp ptrSet ?st0 = Some (Inr st)"
    and out: "oidMap out = getCheckpointIdBBMap (checkpointBBTopoMap st)"
    by (auto simp: instrument_def Let_def split: option.splits sum.splits prod.splits)
  from ne obtain k others where ps: "ptrSet = k # others" by (cases ptrSet) auto
  with ic obtain tvs where
    "installOnSuccessors E c lv tvs k (getBBSuccessors F k) ?st0 = Some (Inr st)"
    by (auto simp: installCheckpoints_def split: option.splits)
  from installOnSuccessors_topo[OF this] su ps have "checkpointBBTopoMap st \<noteq> []" by simp
  with out show ?thesis by (simp add: getCheckpointIdBBMap_nonempty)
qed

text \<open>
  C1. Whenever the pass leaves a function without a checkpoint installed in it (the
  first handle handed to the pass not being a block of the function), the function is
  the input: no directive is erased, no block is split, no switch is installed, no handle
  is taken and the flag of the pass is not set. The pass then left at one of the tests
  that come before the entry edge is split, or with zero candidate blocks; it never
  leaves for a failed edge split or with zero checkpoints, since the splitter hands back
  no null pointer and a candidate block has a successor.
\<close>

theorem skipped_function_unchanged:
  assumes run: "injectFunction E tvo lv F n = Some (Inr out)"
    and skipped: "oexit out \<noteq> Injected"
    and fresh: "\<not> hasBlock F n"
  shows "ofunc out = F \<and> onext out = n \<and> \<not> omodified out \<and> ocontroller out = None \<and>
         oexit out \<in> {SkipLinkage, SkipNoTrackedVals, SkipNoCkptMem, SkipOneBlock, SkipNoCandidates}"
proof (cases "ocontroller out")
  case None
  have l: "ofunc (leave G k x) = G \<and> onext (leave G k x) = k \<and> \<not> omodified (leave G k x) \<and>
           oexit (leave G k x) = x" for G k x
    by (simp add: leave_def)
  have nn: "instrument E c lv' cp ps rc s G k \<noteq> Some (Inr out)" for c lv' cp ps rc s G k
    using None by (auto simp: instrument_def Let_def split: option.splits sum.splits prod.splits)
  from run None nn have ex: "oexit out \<in> {SkipLinkage, SkipNoTrackedVals, SkipNoCkptMem, SkipOneBlock, SkipNoCandidates}"
    using splitEdgeWrapper_not_null
    by (auto simp: injectFunction_def l split: if_splits option.splits list.splits sum.splits
        prod.splits)
  from early_skip_unchanged[OF run ex] ex None show ?thesis by simp
next
  case (Some rc0)
  then have "ocontroller out \<noteq> None" by simp
  from run obtain tv where tvo: "tvo = Some tv"
    using Some by (cases tvo) (auto simp: injectFunction_def leave_def split: if_splits)
  from reach_instrument[OF run[unfolded tvo] \<open>ocontroller out \<noteq> None\<close>]
  obtain cm e cp F0 s0 F1 rc n1 rcSucc where
    sel: "selectCheckpointBBs E F tv = Inr (cp, F0)" and
    sp: "splitEdgeWrapper E F0 n e s0 = Inr (Some (F1, rc, n1))" and
    ins: "instrument E (Ptr cm) lv cp (getCkptBBsInFunc F0 cp) rc rcSucc F1 n1 = Some (Inr out)"
    by blast
  have cpne: "cp \<noteq> []"
  proof
    assume "cp = []"
    with run tvo sel Some show False
      by (auto simp: injectFunction_def leave_def split: if_splits option.splits list.splits)
  qed
  note cb = select_checkpoint_blocks[OF sel cpne]
  from cb(1) have hdin: "hd (getCkptBBsInFunc F0 cp) \<in> set (getCkptBBsInFunc F0 cp)" by simp
  from cb(2)[OF hdin] have hb: "hasBlock F0 (hd (getCkptBBsInFunc F0 cp))"
    and one: "length (getBBSuccessors F0 (hd (getCkptBBsInFunc F0 cp))) = 1" by simp_all
  from fresh hasBlock_select[OF sel] have f0: "\<not> hasBlock F0 n" by simp
  with hb have "hd (getCkptBBsInFunc F0 cp) \<noteq> n" by auto
  from split_keeps_one_successor[OF sp hb this one]
  have "getBBSuccessors F1 (hd (getCkptBBsInFunc F0 cp)) \<noteq> []" by auto
  from instrument_injected[OF ins cb(1) this] have "oidMap out \<noteq> []" .
  moreover from hasBlock_splitEdgeWrapper[OF sp] have "hasBlock F1 rc" by simp
  from instrument_result(5)[OF ins this] have "oexit out = (if oidMap out = [] then SkipNoCheckpoints else Injected)" .
  ultimately show ?thesis using skipped by simp
qed

theorem skipped_function_unchanged_witness:
  "injectFunction exEnv (Some exUntracked) (Some exLive) exFunc 100 =
     Some (Inr (leave exFunc 100 SkipNoCandidates)) \<and>
   oexit (leave exFunc 100 SkipNoCandidates) \<noteq> Injected \<and> \<not> hasBlock exFunc 100 \<and>
   list_ex isDirective (getBlock exFunc 11) \<and>
   ofunc (leave exFunc 100 SkipNoCandidates) = exFunc \<and>
   onext (leave exFunc 100 SkipNoCandidates) = 100 \<and>
   \<not> omodified (leave exFunc 100 SkipNoCandidates) \<and>
   ocontroller (leave exFunc 100 SkipNoCandidates) = None"
proof -
  have r: "injectFunction exEnv (Some exUntracked) (Some exLive) exFunc 100 =
     Some (Inr (leave exFunc 100 SkipNoCandidates))" by code_simp
  have s: "oexit (leave exFunc 100 SkipNoCandidates) \<noteq> Injected" by (simp add: leave_def)
  have f: "\<not> hasBlock exFunc 100" by (simp add: hasBlock_def exFunc_def)
  have d: "list_ex isDirective (getBlock exFunc 11)" by code_simp
  from skipped_function_unchanged[OF r s f] r s f d show ?thesis by simp
qed

section \<open>Properties of an installed checkpoint\<close>

subsection \<open>The save, restore and junction blocks through the propagation\<close>













































subsection \<open>The installed checkpoint on concrete functions\<close>








end
